theory Spec2Isabelle
  imports Complex_Main
begin

section \<open>Python and numpy values\<close>

text \<open>
  The exceptions the code can raise. \<open>NanScore\<close> is not an exception: it stands for
  the not-a-number that \<^verbatim>\<open>np.mean\<close> gives on an empty list, which has no place among
  the real-valued scores.
\<close>

datatype error = IndexError | KeyError | ValueError | TypeError | NanScore

text \<open>Sequencing of fallible steps: the first exception ends the computation.\<close>

definition bind :: "error + 'a \<Rightarrow> ('a \<Rightarrow> error + 'b) \<Rightarrow> error + 'b" where
  "bind m f = (case m of Inl e \<Rightarrow> Inl e | Inr x \<Rightarrow> f x)"

text \<open>
  The float that holds the best performance: a finite score, or one of the two
  infinities (\<^verbatim>\<open>-np.infty\<close> is the start value, and its negation can be returned).
\<close>

datatype pyfloat = NegInf | Fin real | PosInf

fun fl_less :: "pyfloat \<Rightarrow> pyfloat \<Rightarrow> bool" where
  "fl_less NegInf NegInf = False"
| "fl_less NegInf (Fin b) = True"
| "fl_less NegInf PosInf = True"
| "fl_less (Fin a) NegInf = False"
| "fl_less (Fin a) (Fin b) = (a < b)"
| "fl_less (Fin a) PosInf = True"
| "fl_less PosInf b = False"

definition fl_le :: "pyfloat \<Rightarrow> pyfloat \<Rightarrow> bool" where
  "fl_le a b = (fl_less a b \<or> a = b)"

fun fl_neg :: "pyfloat \<Rightarrow> pyfloat" where
  "fl_neg NegInf = PosInf"
| "fl_neg (Fin a) = Fin (- a)"
| "fl_neg PosInf = NegInf"

text \<open>
  \<^verbatim>\<open>a[idx]\<close> with an integer index array: the elements at those positions, in the
  order of \<open>idx\<close>; an index out of range raises IndexError. The index arrays here come
  from \<^verbatim>\<open>np.arange\<close> and the fold splitter, so they are natural numbers.
\<close>

definition np_take :: "'a list \<Rightarrow> nat list \<Rightarrow> error + 'a list" where
  "np_take a idx =
     (if \<forall>i \<in> set idx. i < length a then Inr (map (\<lambda>i. a ! i) idx) else Inl IndexError)"

text \<open>
  \<^verbatim>\<open>a[idx] = vals\<close>: element-wise assignment in the order of \<open>idx\<close> (a later
  occurrence of an index wins); one value is broadcast to every position; any other
  length mismatch raises ValueError. The array keeps, for every cell, the values that
  have been assigned to it, oldest first: the value of a cell is the last of them, and a
  cell that has never been assigned to has none, since \<^verbatim>\<open>np.ndarray\<close> does not
  initialise its memory.
\<close>

fun put_all :: "'a list list \<Rightarrow> nat list \<Rightarrow> 'a list \<Rightarrow> 'a list list" where
  "put_all a (i # idx) (v # vals) = put_all (a[i := a ! i @ [v]]) idx vals"
| "put_all a idx vals = a"

definition np_put :: "'a list list \<Rightarrow> nat list \<Rightarrow> 'a list \<Rightarrow> error + 'a list list" where
  "np_put a idx vals =
     (if \<not> (\<forall>i \<in> set idx. i < length a) then Inl IndexError
      else if length vals = length idx then Inr (put_all a idx vals)
      else if length vals = 1 then Inr (put_all a idx (replicate (length idx) (hd vals)))
      else Inl ValueError)"

text \<open>
  Reading the array back: a cell never assigned to holds whatever the memory held,
  given by \<open>garbage\<close> at that position.
\<close>

definition np_read :: "(nat \<Rightarrow> 'a) \<Rightarrow> 'a list list \<Rightarrow> 'a list" where
  "np_read garbage a =
     map (\<lambda>i. if a ! i = [] then garbage i else last (a ! i)) [0..<length a]"

text \<open>\<^verbatim>\<open>np.mean\<close> of a list of scores.\<close>

definition np_mean :: "real list \<Rightarrow> error + real" where
  "np_mean xs = (if xs = [] then Inl NanScore else Inr (sum_list xs / real (length xs)))"

text \<open>\<^verbatim>\<open>-math.sqrt(m)\<close>: the square root of a negative number raises ValueError.\<close>

definition neg_sqrt :: "real \<Rightarrow> error + real" where
  "neg_sqrt m = (if m < 0 then Inl ValueError else Inr (- sqrt m))"

subsection \<open>Dictionaries\<close>

text \<open>
  A Python dict keeps its keys in insertion order; assigning to a key that is present
  replaces the value and leaves the key where it is.
\<close>

fun dict_set :: "('k \<times> 'a) list \<Rightarrow> 'k \<Rightarrow> 'a \<Rightarrow> ('k \<times> 'a) list" where
  "dict_set [] k v = [(k, v)]"
| "dict_set ((k', v') # d) k v =
     (if k' = k then (k', v) # d else (k', v') # dict_set d k v)"

text \<open>
  \<^verbatim>\<open>max(d.keys(), key = lambda k: d[k])\<close>: \<^verbatim>\<open>max\<close> walks the keys in order and
  replaces its candidate only by a strictly greater one; on an empty dict it raises
  ValueError.
\<close>

fun max_from :: "('k \<times> real) \<Rightarrow> ('k \<times> real) list \<Rightarrow> ('k \<times> real)" where
  "max_from b [] = b"
| "max_from b (x # xs) = max_from (if snd b < snd x then x else b) xs"

definition dict_argmax :: "('k \<times> real) list \<Rightarrow> error + 'k" where
  "dict_argmax d = (case d of [] \<Rightarrow> Inl ValueError | x # xs \<Rightarrow> Inr (fst (max_from x xs)))"

text \<open>\<^verbatim>\<open>d[k]\<close> on a dict.\<close>

definition dict_get :: "('k \<times> 'a) list \<Rightarrow> 'k \<Rightarrow> error + 'a" where
  "dict_get d k = (case map_of d k of None \<Rightarrow> Inl KeyError | Some v \<Rightarrow> Inr v)"

section \<open>The dataset and the external collaborators\<close>

record dataset =
  X_train :: "real list list"
  X_train_norm :: "real list list"
  y_train :: "real list"

text \<open>A keyword argument of the predictor: a number, or the distance matrix.\<close>

datatype pval = Num real | Dist "real list list"

type_synonym gp_params = "(string \<times> pval) list"
type_synonym folds = "(nat list \<times> nat list) list"

text \<open>
  What the module imports and does not define: the predictor (\<^verbatim>\<open>ital.gp\<close>), the
  fold splitters and the metrics (\<^verbatim>\<open>sklearn\<close>). \<open>'g\<close> is the predictor object,
  \<open>'k\<close> the splitter object. A splitter is built from the fold count, \<^verbatim>\<open>shuffle\<close>
  and \<^verbatim>\<open>random_state\<close>, where \<open>None\<close> stands for the generator of the process.
  \<open>uninit\<close> is the content of freshly allocated array memory.
\<close>

record ('g, 'k) env =
  GaussianProcess :: "real list list \<Rightarrow> gp_params \<Rightarrow> error + 'g"
  gp_fit :: "'g \<Rightarrow> nat list \<Rightarrow> real list \<Rightarrow> error + 'g"
  gp_predict_stored :: "'g \<Rightarrow> nat list \<Rightarrow> error + real list"
  StratifiedKFold :: "int \<Rightarrow> bool \<Rightarrow> int option \<Rightarrow> error + 'k"
  KFold :: "int \<Rightarrow> bool \<Rightarrow> int option \<Rightarrow> error + 'k"
  split :: "'k \<Rightarrow> real list list \<Rightarrow> int list option \<Rightarrow> error + folds"
  average_precision_score :: "int list \<Rightarrow> real list \<Rightarrow> error + real"
  mean_squared_error :: "real list \<Rightarrow> real list \<Rightarrow> error + real"
  uninit :: "nat \<Rightarrow> real"

section \<open>The cross-validation evaluators\<close>

text \<open>
  Lines 48 to 51 and 84 to 87: the positions of the samples that take part. A boolean
  mask of the wrong length raises IndexError.
\<close>

definition not_unnameable :: "dataset \<Rightarrow> int list option \<Rightarrow> error + nat list" where
  "not_unnameable ds relevance =
     (case relevance of
        None \<Rightarrow> Inr [0..<length (X_train ds)]
      | Some rel \<Rightarrow>
          if length rel = length (X_train ds)
          then Inr (filter (\<lambda>i. rel ! i \<noteq> 0) [0..<length (X_train ds)])
          else Inl IndexError)"

text \<open>Line 56 and line 92: the splitter object.\<close>

definition make_kfold :: "('g, 'k) env \<Rightarrow> int list option \<Rightarrow> int \<Rightarrow> error + 'k" where
  "make_kfold E relevance n_folds =
     (case relevance of
        Some rel \<Rightarrow> StratifiedKFold E n_folds True (Some 0)
      | None \<Rightarrow> KFold E n_folds True (Some 0))"

text \<open>Line 57 and line 93: the call of \<^verbatim>\<open>kfold.split\<close>.\<close>

definition kfold_split ::
  "('g, 'k) env \<Rightarrow> dataset \<Rightarrow> int list option \<Rightarrow> nat list \<Rightarrow> 'k \<Rightarrow> error + folds" where
  "kfold_split E ds relevance nu kfold =
     bind (np_take (X_train_norm ds) nu) (\<lambda>X.
       case relevance of
         Some rel \<Rightarrow> bind (np_take rel nu) (\<lambda>y. split E kfold X (Some y))
       | None \<Rightarrow> split E kfold X None)"

text \<open>
  The targets of a fit on the positions \<open>ind\<close> of the eligible samples: the relevance
  of those samples, or for regression \<^verbatim>\<open>dataset.y_train[ind]\<close>.
\<close>

definition fit_targets ::
  "dataset \<Rightarrow> int list option \<Rightarrow> nat list \<Rightarrow> nat list \<Rightarrow> error + real list" where
  "fit_targets ds relevance nu ind =
     (case relevance of
        Some rel \<Rightarrow> bind (np_take nu ind) (\<lambda>s. bind (np_take rel s) (\<lambda>r. Inr (map real_of_int r)))
      | None \<Rightarrow> np_take (y_train ds) ind)"

text \<open>Lines 58 and 59: one fold of the standard evaluator.\<close>

definition gp_fold ::
  "('g, 'k) env \<Rightarrow> dataset \<Rightarrow> int list option \<Rightarrow> nat list \<Rightarrow> (nat list \<times> nat list) \<Rightarrow>
     ('g \<times> real list list) \<Rightarrow> error + ('g \<times> real list list)" where
  "gp_fold E ds relevance nu fd st =
     (case fd of (train_ind, test_ind) \<Rightarrow> case st of (gp, scores) \<Rightarrow>
        bind (np_take nu train_ind) (\<lambda>tr.
        bind (fit_targets ds relevance nu train_ind) (\<lambda>targets.
        bind (gp_fit E gp tr targets) (\<lambda>gp'.
        bind (np_take nu test_ind) (\<lambda>te.
        bind (gp_predict_stored E gp' te) (\<lambda>pred.
        bind (np_put scores test_ind pred) (\<lambda>scores'.
        Inr (gp', scores'))))))))"

fun gp_folds ::
  "('g, 'k) env \<Rightarrow> dataset \<Rightarrow> int list option \<Rightarrow> nat list \<Rightarrow> folds \<Rightarrow>
     ('g \<times> real list list) \<Rightarrow> error + ('g \<times> real list list)" where
  "gp_folds E ds relevance nu [] st = Inr st"
| "gp_folds E ds relevance nu (fd # rest) st =
     (case gp_fold E ds relevance nu fd st of
        Inl e \<Rightarrow> Inl e
      | Inr st' \<Rightarrow> gp_folds E ds relevance nu rest st')"

text \<open>Line 61: the metric over the pooled predictions.\<close>

definition pooled_score ::
  "('g, 'k) env \<Rightarrow> dataset \<Rightarrow> int list option \<Rightarrow> nat list \<Rightarrow> real list list \<Rightarrow> error + real" where
  "pooled_score E ds relevance nu scores =
     (case relevance of
        Some rel \<Rightarrow>
          bind (np_take rel nu) (\<lambda>y. average_precision_score E y (np_read (uninit E) scores))
      | None \<Rightarrow>
          bind (mean_squared_error E (y_train ds) (np_read (uninit E) scores)) neg_sqrt)"

definition cross_validate_gp ::
  "('g, 'k) env \<Rightarrow> dataset \<Rightarrow> int list option \<Rightarrow> gp_params \<Rightarrow> int \<Rightarrow> error + real" where
  "cross_validate_gp E ds relevance params n_folds =
     bind (not_unnameable ds relevance) (\<lambda>nu.
     bind (GaussianProcess E (X_train_norm ds) params) (\<lambda>gp.
     bind (make_kfold E relevance n_folds) (\<lambda>kfold.
     bind (kfold_split E ds relevance nu kfold) (\<lambda>fs.
     bind (gp_folds E ds relevance nu fs (gp, replicate (length nu) [])) (\<lambda>(gp', scores).
     pooled_score E ds relevance nu scores)))))"

text \<open>
  Lines 94 to 96: one fold of the few-shot evaluator. The predictor is fitted on the
  test positions and asked for the train positions, and the fold's score is appended.
\<close>

definition fold_metric ::
  "('g, 'k) env \<Rightarrow> dataset \<Rightarrow> int list option \<Rightarrow> nat list \<Rightarrow> nat list \<Rightarrow> real list \<Rightarrow> error + real" where
  "fold_metric E ds relevance nu ind scores =
     (case relevance of
        Some rel \<Rightarrow>
          bind (np_take nu ind) (\<lambda>s. bind (np_take rel s) (\<lambda>y. average_precision_score E y scores))
      | None \<Rightarrow>
          bind (np_take (y_train ds) ind) (\<lambda>y. bind (mean_squared_error E y scores) neg_sqrt))"

definition fewshot_fold ::
  "('g, 'k) env \<Rightarrow> dataset \<Rightarrow> int list option \<Rightarrow> nat list \<Rightarrow> (nat list \<times> nat list) \<Rightarrow>
     ('g \<times> real list) \<Rightarrow> error + ('g \<times> real list)" where
  "fewshot_fold E ds relevance nu fd st =
     (case fd of (train_ind, test_ind) \<Rightarrow> case st of (gp, perf) \<Rightarrow>
        bind (np_take nu test_ind) (\<lambda>te.
        bind (fit_targets ds relevance nu test_ind) (\<lambda>targets.
        bind (gp_fit E gp te targets) (\<lambda>gp'.
        bind (np_take nu train_ind) (\<lambda>tr.
        bind (gp_predict_stored E gp' tr) (\<lambda>scores.
        bind (fold_metric E ds relevance nu train_ind scores) (\<lambda>p.
        Inr (gp', perf @ [p]))))))))"

fun fewshot_folds ::
  "('g, 'k) env \<Rightarrow> dataset \<Rightarrow> int list option \<Rightarrow> nat list \<Rightarrow> folds \<Rightarrow>
     ('g \<times> real list) \<Rightarrow> error + ('g \<times> real list)" where
  "fewshot_folds E ds relevance nu [] st = Inr st"
| "fewshot_folds E ds relevance nu (fd # rest) st =
     (case fewshot_fold E ds relevance nu fd st of
        Inl e \<Rightarrow> Inl e
      | Inr st' \<Rightarrow> fewshot_folds E ds relevance nu rest st')"

definition cross_validate_fewshot ::
  "('g, 'k) env \<Rightarrow> dataset \<Rightarrow> int list option \<Rightarrow> gp_params \<Rightarrow> int \<Rightarrow> error + real" where
  "cross_validate_fewshot E ds relevance params n_folds =
     bind (not_unnameable ds relevance) (\<lambda>nu.
     bind (GaussianProcess E (X_train_norm ds) params) (\<lambda>gp.
     bind (make_kfold E relevance n_folds) (\<lambda>kfold.
     bind (kfold_split E ds relevance nu kfold) (\<lambda>fs.
     bind (fewshot_folds E ds relevance nu fs (gp, [])) (\<lambda>(gp', perf).
     np_mean perf)))))"

section \<open>The coordinate-ascent optimizer\<close>

text \<open>
  The grid is an ordered dict from parameter names to candidate lists, \<open>init\<close> a dict
  from names to start values. The keys of a dict are distinct.
\<close>

type_synonym grid = "(string \<times> real list) list"

text \<open>Line 131: \<^verbatim>\<open>[init[p] for p in param_names]\<close>; a missing name raises KeyError.\<close>

fun init_params :: "(string \<rightharpoonup> real) \<Rightarrow> string list \<Rightarrow> error + real list" where
  "init_params init [] = Inr []"
| "init_params init (p # ps) =
     (case init p of
        None \<Rightarrow> Inl KeyError
      | Some v \<Rightarrow> (case init_params init ps of Inl e \<Rightarrow> Inl e | Inr vs \<Rightarrow> Inr (v # vs)))"

text \<open>Lines 137 and 138: the squared distances \<open>A + B - 2 * C\<close> of the rows.\<close>

definition dot :: "real list \<Rightarrow> real list \<Rightarrow> real" where
  "dot a b = sum_list (map (\<lambda>(x, y). x * y) (zip a b))"

definition data_norm :: "real list list \<Rightarrow> real list" where
  "data_norm X = map (\<lambda>row. sum_list (map (\<lambda>x. x ^ 2) row)) X"

definition pdist :: "real list list \<Rightarrow> real list list" where
  "pdist X =
     map (\<lambda>i. map (\<lambda>j. data_norm X ! i + data_norm X ! j - 2 * dot (X ! i) (X ! j))
                [0..<length X])
         [0..<length X]"

record opt_state =
  cur_params :: "real list"
  changed :: "bool list"
  changing_param :: nat
  perf :: "(real list \<times> real) list"
  best_perf :: pyfloat

text \<open>
  Line 144: the dict comprehension over \<^verbatim>\<open>range(len(param_names))\<close>; reading
  \<^verbatim>\<open>cur_params[i]\<close> beyond the list raises IndexError. Line 145 adds the distances.
\<close>

fun cv_params_from ::
  "string list \<Rightarrow> nat \<Rightarrow> real list \<Rightarrow> real \<Rightarrow> nat list \<Rightarrow> gp_params \<Rightarrow> error + gp_params" where
  "cv_params_from names cp cur val [] d = Inr d"
| "cv_params_from names cp cur val (i # is) d =
     (if i = cp then cv_params_from names cp cur val is (dict_set d (names ! i) (Num val))
      else if i < length cur
      then cv_params_from names cp cur val is (dict_set d (names ! i) (Num (cur ! i)))
      else Inl IndexError)"

definition cv_params ::
  "string list \<Rightarrow> nat \<Rightarrow> real list \<Rightarrow> real \<Rightarrow> real list list \<Rightarrow> error + gp_params" where
  "cv_params names cp cur val pd =
     bind (cv_params_from names cp cur val [0..<length names] [])
       (\<lambda>d. Inr (dict_set d ''pdist'' (Dist pd)))"

text \<open>
  The keyword arguments that give the parameters \<open>names\<close> the values \<open>vals\<close>,
  with the distances.
\<close>

definition config_params :: "string list \<Rightarrow> real list \<Rightarrow> real list list \<Rightarrow> gp_params" where
  "config_params names vals pd =
     dict_set (foldl (\<lambda>d i. dict_set d (names ! i) (Num (vals ! i))) [] [0..<length names])
       ''pdist'' (Dist pd)"

text \<open>Lines 144 to 149: the score of one candidate value of the current axis.\<close>

definition candidate_score ::
  "(gp_params \<Rightarrow> error + real) \<Rightarrow> string list \<Rightarrow> nat \<Rightarrow> real list \<Rightarrow> real list list \<Rightarrow>
     real \<Rightarrow> error + real" where
  "candidate_score cv names cp cur pd val = bind (cv_params names cp cur val pd) cv"

text \<open>
  Lines 142 to 151: the candidates of one axis in the order of the grid, each scored;
  the scores are kept in a dict keyed by the candidate value.
\<close>

fun sweep :: "(real \<Rightarrow> error + real) \<Rightarrow> real list \<Rightarrow> (real \<times> real) list \<Rightarrow> error + (real \<times> real) list" where
  "sweep sc [] cur_perfs = Inr cur_perfs"
| "sweep sc (val # vals) cur_perfs =
     (case sc val of
        Inl e \<Rightarrow> Inl e
      | Inr s \<Rightarrow> sweep sc vals (dict_set cur_perfs val s))"

text \<open>Lines 142 to 152: the best value of the current axis, with its score.\<close>

definition axis_best ::
  "(gp_params \<Rightarrow> error + real) \<Rightarrow> grid \<Rightarrow> real list list \<Rightarrow> opt_state \<Rightarrow> error + (real \<times> real)" where
  "axis_best cv grid pd st =
     (if \<not> changing_param st < length grid then Inl IndexError
      else
        bind (dict_get grid (map fst grid ! changing_param st)) (\<lambda>vals.
        bind (sweep (candidate_score cv (map fst grid) (changing_param st) (cur_params st) pd)
                vals []) (\<lambda>cur_perfs.
        bind (dict_argmax cur_perfs) (\<lambda>best_val.
        bind (dict_get cur_perfs best_val) (\<lambda>s.
        Inr (best_val, s))))))"

text \<open>
  Lines 142 to 167: the body of the loop. \<open>Break\<close> leaves the loop, \<open>Next\<close> goes
  back to its head.
\<close>

datatype 'a ctl = Break 'a | Next 'a

definition ctl_state :: "'a ctl \<Rightarrow> 'a" where
  "ctl_state c = (case c of Break s \<Rightarrow> s | Next s \<Rightarrow> s)"

definition loop_body ::
  "(gp_params \<Rightarrow> error + real) \<Rightarrow> grid \<Rightarrow> real list list \<Rightarrow> opt_state \<Rightarrow> error + opt_state ctl" where
  "loop_body cv grid pd st =
     bind (axis_best cv grid pd st) (\<lambda>(best_val, s).
       if fl_less (Fin s) (best_perf st) then Inr (Break st)
       else if \<not> changing_param st < length (cur_params st) then Inl IndexError
       else if \<not> changing_param st < length (changed st) then Inl IndexError
       else
         let cur' = (cur_params st)[changing_param st := best_val];
             st' = \<lparr> cur_params = cur',
                     changed = (changed st)[changing_param st :=
                                  (best_val \<noteq> cur_params st ! changing_param st)],
                     changing_param = (changing_param st + 1) mod length grid,
                     perf = dict_set (perf st) cur' s,
                     best_perf = Fin s \<rparr>
         in if length grid < 2 then Inr (Break st') else Inr (Next st'))"

text \<open>Line 140: the loop. It returns \<open>None\<close> where the loop would run forever.\<close>

partial_function (option) while_loop ::
  "(gp_params \<Rightarrow> error + real) \<Rightarrow> grid \<Rightarrow> real list list \<Rightarrow> opt_state \<Rightarrow>
     (error + opt_state) option" where
  "while_loop cv grid pd st =
     (if \<not> list_ex (\<lambda>b. b) (changed st) then Some (Inr st)
      else case loop_body cv grid pd st of
             Inl e \<Rightarrow> Some (Inl e)
           | Inr (Break st') \<Rightarrow> Some (Inr st')
           | Inr (Next st') \<Rightarrow> while_loop cv grid pd st')"

text \<open>Lines 169 and 170: the entry of the history with the greatest score.\<close>

definition finish ::
  "string list \<Rightarrow> int list option \<Rightarrow> opt_state \<Rightarrow> error + ((string \<times> real) list \<times> pyfloat)" where
  "finish param_names relevance st =
     bind (dict_argmax (perf st)) (\<lambda>best_params.
       Inr (zip param_names best_params,
            (case relevance of Some rel \<Rightarrow> best_perf st | None \<Rightarrow> fl_neg (best_perf st))))"

text \<open>Lines 146 to 149: the evaluator chosen by \<open>fewshot\<close>.\<close>

definition evaluator ::
  "('g, 'k) env \<Rightarrow> dataset \<Rightarrow> int list option \<Rightarrow> int \<Rightarrow> bool \<Rightarrow> gp_params \<Rightarrow> error + real" where
  "evaluator E ds relevance n_folds fewshot ps =
     (if fewshot then cross_validate_fewshot E ds relevance ps n_folds
      else cross_validate_gp E ds relevance ps n_folds)"

definition init_state :: "real list \<Rightarrow> opt_state" where
  "init_state cur =
     \<lparr> cur_params = cur, changed = replicate (length cur) True, changing_param = 0,
       perf = [], best_perf = NegInf \<rparr>"

text \<open>
  The optimizer; what it prints under \<open>verbose\<close> is left out. The result is \<open>None\<close>
  where the loop does not end, otherwise the exception raised or the pair returned.
\<close>

definition optimize_gp_params ::
  "('g, 'k) env \<Rightarrow> dataset \<Rightarrow> int list option \<Rightarrow> grid \<Rightarrow> (string \<rightharpoonup> real) \<Rightarrow> int \<Rightarrow> bool \<Rightarrow>
     (error + ((string \<times> real) list \<times> pyfloat)) option" where
  "optimize_gp_params E ds relevance grid init n_folds fewshot =
     (case init_params init (map fst grid) of
        Inl e \<Rightarrow> Some (Inl e)
      | Inr cur \<Rightarrow>
          (case while_loop (evaluator E ds relevance n_folds fewshot) grid
                  (pdist (X_train_norm ds)) (init_state cur) of
             None \<Rightarrow> None
           | Some (Inl e) \<Rightarrow> Some (Inl e)
           | Some (Inr st) \<Rightarrow> Some (finish (map fst grid) relevance st)))"

section \<open>Notions the properties are stated with\<close>

text \<open>The samples of nonzero relevance.\<close>

definition eligible :: "int list \<Rightarrow> nat set" where
  "eligible rel = {i. i < length rel \<and> rel ! i \<noteq> 0}"

text \<open>
  The test index lists of the folds, one after the other, name every position below
  \<open>n\<close> once and nothing else: the folds are mutually exclusive and cover the positions.
\<close>

definition partitions :: "folds \<Rightarrow> nat \<Rightarrow> bool" where
  "partitions fs n =
     (distinct (concat (map snd fs)) \<and> set (concat (map snd fs)) = {0..<n})"

text \<open>
  The evaluators in the words of the specification, which speaks of samples and their
  labels, not of positions in an index array. The label of a sample is its relevance,
  or for regression its target value.
\<close>

definition spec_labels :: "dataset \<Rightarrow> int list option \<Rightarrow> nat list \<Rightarrow> real list" where
  "spec_labels ds relevance samples =
     (case relevance of
        Some rel \<Rightarrow> map (\<lambda>i. real_of_int (rel ! i)) samples
      | None \<Rightarrow> map (\<lambda>i. y_train ds ! i) samples)"

text \<open>
  Fitting the predictor on some samples with their labels and asking it for others: the
  fitted predictor and the predictions.
\<close>

definition spec_fit_predict ::
  "('g, 'k) env \<Rightarrow> dataset \<Rightarrow> int list option \<Rightarrow> 'g \<Rightarrow> nat list \<Rightarrow> nat list \<Rightarrow>
     error + ('g \<times> real list)" where
  "spec_fit_predict E ds relevance gp fit_samples eval_samples =
     bind (gp_fit E gp fit_samples (spec_labels ds relevance fit_samples)) (\<lambda>gp'.
     bind (gp_predict_stored E gp' eval_samples) (\<lambda>predictions.
     Inr (gp', predictions)))"

text \<open>
  The metric on some samples and the predictions for them: average precision against
  their relevance, or the negative root of the mean squared error against their targets.
\<close>

definition spec_metric ::
  "('g, 'k) env \<Rightarrow> dataset \<Rightarrow> int list option \<Rightarrow> nat list \<Rightarrow> real list \<Rightarrow> error + real" where
  "spec_metric E ds relevance samples predictions =
     (case relevance of
        Some rel \<Rightarrow> average_precision_score E (map (\<lambda>i. rel ! i) samples) predictions
      | None \<Rightarrow>
          (case mean_squared_error E (map (\<lambda>i. y_train ds ! i) samples) predictions of
             Inl e \<Rightarrow> Inl e
           | Inr m \<Rightarrow> if m < 0 then Inl ValueError else Inr (- sqrt m)))"

text \<open>
  The samples of a fold: the eligible samples at the positions the splitter gave.
\<close>

definition train_samples :: "nat list \<Rightarrow> (nat list \<times> nat list) \<Rightarrow> nat list" where
  "train_samples nu fd = map (\<lambda>p. nu ! p) (fst fd)"

definition test_samples :: "nat list \<Rightarrow> (nat list \<times> nat list) \<Rightarrow> nat list" where
  "test_samples nu fd = map (\<lambda>p. nu ! p) (snd fd)"

text \<open>
  The score of one fold of the few-shot evaluator: the predictor is fitted on the test
  partition and evaluated on the train partition, and the metric is applied to the
  samples of the train partition only.
\<close>

definition spec_fewshot_score ::
  "('g, 'k) env \<Rightarrow> dataset \<Rightarrow> int list option \<Rightarrow> nat list \<Rightarrow> 'g \<Rightarrow> (nat list \<times> nat list) \<Rightarrow>
     error + ('g \<times> real)" where
  "spec_fewshot_score E ds relevance nu gp fd =
     (case spec_fit_predict E ds relevance gp (test_samples nu fd) (train_samples nu fd) of
        Inl e \<Rightarrow> Inl e
      | Inr (gp', predictions) \<Rightarrow>
          (case spec_metric E ds relevance (train_samples nu fd) predictions of
             Inl e \<Rightarrow> Inl e
           | Inr p \<Rightarrow> Inr (gp', p)))"

text \<open>
  The state at the head of the loop after \<open>n\<close> full passes of its body, where the loop
  gets that far: every one of the passes finds a changed flag set and ends at line 167
  without leaving the loop.
\<close>

fun loop_iter ::
  "(gp_params \<Rightarrow> error + real) \<Rightarrow> grid \<Rightarrow> real list list \<Rightarrow> nat \<Rightarrow> opt_state \<Rightarrow>
     opt_state option" where
  "loop_iter cv grid pd 0 st = Some st"
| "loop_iter cv grid pd (Suc n) st =
     (if \<not> list_ex (\<lambda>b. b) (changed st) then None
      else case loop_body cv grid pd st of
             Inr (Next st') \<Rightarrow> loop_iter cv grid pd n st'
           | _ \<Rightarrow> None)"

section \<open>Measures of a loop state\<close>

text \<open>
  What the proof that the loop ends counts. \<open>cands\<close> are the candidates of an axis;
  a configuration is \<open>better\<close> than another when it scores more, or scores the same
  with candidates listed earlier; \<open>off_grid\<close> counts the axes whose current value is no
  candidate, \<open>ahead\<close> the configurations better than the current one, and \<open>pending\<close>
  adds up, over the axes flagged as changed, how far ahead of the current axis they lie.
\<close>

definition cands :: "grid \<Rightarrow> nat \<Rightarrow> real list" where
  "cands grid i = (case map_of grid (map fst grid ! i) of Some vs \<Rightarrow> vs | None \<Rightarrow> [])"

definition first_idx :: "real list \<Rightarrow> real \<Rightarrow> nat" where
  "first_idx xs x = length (takeWhile (\<lambda>y. y \<noteq> x) xs)"

definition cfg_score :: "(gp_params \<Rightarrow> error + real) \<Rightarrow> grid \<Rightarrow> real list list \<Rightarrow> real list \<Rightarrow> real" where
  "cfg_score cv grid pd c =
     (case cv (config_params (map fst grid) c pd) of Inr s \<Rightarrow> s | Inl e \<Rightarrow> 0)"

definition cfg_rank :: "grid \<Rightarrow> real list \<Rightarrow> nat" where
  "cfg_rank grid c = (\<Sum>i < length grid. first_idx (cands grid i) (c ! i))"

definition better ::
  "(gp_params \<Rightarrow> error + real) \<Rightarrow> grid \<Rightarrow> real list list \<Rightarrow> real list \<Rightarrow> real list \<Rightarrow> bool" where
  "better cv grid pd c d =
     (cfg_score cv grid pd d < cfg_score cv grid pd c \<or>
      cfg_score cv grid pd c = cfg_score cv grid pd d \<and> cfg_rank grid c < cfg_rank grid d)"

definition reach_space :: "grid \<Rightarrow> real list \<Rightarrow> real list set" where
  "reach_space grid cur =
     {c. length c = length grid \<and>
         (\<forall>i < length grid. c ! i \<in> insert (cur ! i) (set (cands grid i)))}"

definition off_grid :: "grid \<Rightarrow> real list \<Rightarrow> nat" where
  "off_grid grid cur = card {i. i < length grid \<and> cur ! i \<notin> set (cands grid i)}"

definition ahead :: "(gp_params \<Rightarrow> error + real) \<Rightarrow> grid \<Rightarrow> real list list \<Rightarrow> real list \<Rightarrow> nat" where
  "ahead cv grid pd cur = card {c \<in> reach_space grid cur. better cv grid pd c cur}"

definition pending :: "grid \<Rightarrow> opt_state \<Rightarrow> nat" where
  "pending grid st =
     (\<Sum>j < length grid.
        if changed st ! j
        then (j + length grid - changing_param st) mod length grid + 1 else 0)"

definition wf_state :: "grid \<Rightarrow> opt_state \<Rightarrow> bool" where
  "wf_state grid st =
     (length (cur_params st) = length grid \<and> length (changed st) = length grid \<and>
      changing_param st < length grid)"

section \<open>A small instance\<close>

text \<open>
  A concrete predictor, splitter and pair of metrics on which the definitions can be
  run. The predictor scores a sample by \<open>(1 - 2 * length_scale) * var\<close> times the sum of
  its features (\<open>var\<close> is 1 when it is not given); the splitter object is the fold
  count with the seed, and it puts position \<open>i\<close> into test fold \<open>i mod k\<close>; the metrics are
  average precision (the sum of precision times the gain in recall over the
  thresholds, from the highest score down) and the mean squared error.
\<close>

fun ap_sum :: "int list \<Rightarrow> real list \<Rightarrow> nat \<Rightarrow> real list \<Rightarrow> real" where
  "ap_sum y s prev [] = 0"
| "ap_sum y s prev (t # ts) =
     (let tp = length (filter (\<lambda>(l, v). t \<le> v \<and> l = 1) (zip y s));
          n = length (filter (\<lambda>(l, v). t \<le> v) (zip y s))
      in (real tp - real prev) * (real tp / real n) + ap_sum y s tp ts)"

definition ap_score :: "int list \<Rightarrow> real list \<Rightarrow> error + real" where
  "ap_score y s =
     (if length y \<noteq> length s \<or> \<not> list_ex (\<lambda>l. l = 1) y then Inl ValueError
      else Inr (ap_sum y s 0 (rev (sort (remdups s))) / real (length (filter (\<lambda>l. l = 1) y))))"

definition mse :: "real list \<Rightarrow> real list \<Rightarrow> error + real" where
  "mse y s =
     (if length y \<noteq> length s \<or> y = [] then Inl ValueError
      else Inr (sum_list (map (\<lambda>(a, b). (a - b) ^ 2) (zip y s)) / real (length y)))"

definition toy_split ::
  "int \<times> int option \<Rightarrow> real list list \<Rightarrow> int list option \<Rightarrow> error + folds" where
  "toy_split kf X y =
     (if fst kf < 2 \<or> int (length X) < fst kf then Inl ValueError
      else Inr (map (\<lambda>j. (filter (\<lambda>i. i mod nat (fst kf) \<noteq> j) [0..<length X],
                          filter (\<lambda>i. i mod nat (fst kf) = j) [0..<length X]))
                  [0..<nat (fst kf)]))"

text \<open>
  The splitter of another run: the same for a splitter built with a seed, and something
  else for one that draws on the generator of the process.
\<close>

definition toy_split_again ::
  "int \<times> int option \<Rightarrow> real list list \<Rightarrow> int list option \<Rightarrow> error + folds" where
  "toy_split_again kf X y = (if snd kf = None then Inr [] else toy_split kf X y)"

definition toy_var :: "gp_params \<Rightarrow> real" where
  "toy_var ps = (case map_of ps ''var'' of Some (Num v) \<Rightarrow> v | _ \<Rightarrow> 1)"

definition toy_env :: "(real list \<times> real, int \<times> int option) env" where
  "toy_env =
     \<lparr> GaussianProcess = (\<lambda>X ps. case map_of ps ''length_scale'' of
                              Some (Num l) \<Rightarrow> Inr (map sum_list X, (1 - 2 * l) * toy_var ps)
                            | _ \<Rightarrow> Inl TypeError),
       gp_fit = (\<lambda>g idx t. Inr g),
       gp_predict_stored = (\<lambda>g idx. bind (np_take (fst g) idx) (\<lambda>xs. Inr (map (\<lambda>x. snd g * x) xs))),
       StratifiedKFold = (\<lambda>k shuffle rs. if k < 2 then Inl ValueError else Inr (k, rs)),
       KFold = (\<lambda>k shuffle rs. if k < 2 then Inl ValueError else Inr (k, rs)),
       split = toy_split,
       average_precision_score = ap_score,
       mean_squared_error = mse,
       uninit = (\<lambda>i. 0) \<rparr>"

definition toy_data :: dataset where
  "toy_data =
     \<lparr> X_train = [[1], [2], [- 1], [- 2], [5]],
       X_train_norm = [[1], [2], [- 1], [- 2], [5]],
       y_train = [1, 2, - 1, - 2, 5] \<rparr>"

definition toy_rel :: "int list" where
  "toy_rel = [1, 1, - 1, - 1, 0]"

definition toy_relevance :: "int list option" where
  "toy_relevance = Some toy_rel"

text \<open>
  A predictor with an assertion in front: it refuses every index list that holds a
  sample outside the eligible ones.
\<close>

definition guarded_fit ::
  "int list \<Rightarrow> ('g, 'k) env \<Rightarrow> 'g \<Rightarrow> nat list \<Rightarrow> real list \<Rightarrow> error + 'g" where
  "guarded_fit rel E g idx t =
     (if set idx \<subseteq> eligible rel then gp_fit E g idx t else Inl ValueError)"

definition guarded_predict ::
  "int list \<Rightarrow> ('g, 'k) env \<Rightarrow> 'g \<Rightarrow> nat list \<Rightarrow> error + real list" where
  "guarded_predict rel E g idx =
     (if set idx \<subseteq> eligible rel then gp_predict_stored E g idx else Inl ValueError)"

definition toy_cv :: "gp_params \<Rightarrow> error + real" where
  "toy_cv = evaluator toy_env toy_data toy_relevance 2 False"

definition toy_grid :: grid where
  "toy_grid = [(''length_scale'', [1, 0]), (''var'', [3, 4])]"

section \<open>Basic facts\<close>

lemma bind_Inl [simp]: "bind (Inl e) f = Inl e"
  by (simp add: bind_def)

lemma bind_Inr [simp]: "bind (Inr x) f = f x"
  by (simp add: bind_def)

lemma bind_eq_Inr: "bind m f = Inr y \<longleftrightarrow> (\<exists>x. m = Inr x \<and> f x = Inr y)"
  by (cases m) simp_all

lemma fl_le_refl: "fl_le a a"
  by (simp add: fl_le_def)

lemma fl_le_trans: "fl_le a b \<Longrightarrow> fl_le b c \<Longrightarrow> fl_le a c"
  by (cases a; cases b; cases c) (auto simp: fl_le_def)

lemma not_less_fl_le: "\<not> fl_less (Fin s) b \<Longrightarrow> fl_le b (Fin s)"
  by (cases b) (auto simp: fl_le_def)

subsection \<open>max\<close>

lemma max_from_mem: "max_from b xs \<in> set (b # xs)"
  by (induction xs arbitrary: b) auto

lemma max_from_ge_all: "\<forall>x \<in> set (b # xs). snd x \<le> snd (max_from b xs)"
proof (induction xs arbitrary: b)
  case Nil
  show ?case by simp
next
  case (Cons a xs)
  from Cons.IH [of "if snd b < snd a then a else b"] show ?case
    by (auto split: if_splits)
qed

lemma max_from_ge: "x \<in> set (b # xs) \<Longrightarrow> snd x \<le> snd (max_from b xs)"
  using max_from_ge_all by blast

lemma max_from_first:
  "\<exists>ys zs. b # xs = ys @ max_from b xs # zs \<and> (\<forall>y \<in> set ys. snd y < snd (max_from b xs))"
proof (induction xs arbitrary: b)
  case Nil
  show ?case by (rule exI [of _ "[]"]) simp
next
  case (Cons a xs)
  show ?case
  proof (cases "snd b < snd a")
    case True
    define M where "M = max_from a xs"
    from Cons.IH [of a] obtain ys zs where
      d: "a # xs = ys @ M # zs" and l: "\<forall>y \<in> set ys. snd y < snd M"
      unfolding M_def by blast
    have "snd a \<le> snd M" unfolding M_def by (rule max_from_ge) simp
    with True have "snd b < snd M" by simp
    with l have l': "\<forall>y \<in> set (b # ys). snd y < snd M" by simp
    have m: "max_from b (a # xs) = M" using True by (simp add: M_def)
    have e: "b # a # xs = (b # ys) @ M # zs" using d by (metis append_Cons)
    show ?thesis unfolding m using e l' by blast
  next
    case False
    define M where "M = max_from b xs"
    have m: "max_from b (a # xs) = M" using False by (simp add: M_def)
    from Cons.IH [of b] obtain ys zs where
      d: "b # xs = ys @ M # zs" and l: "\<forall>y \<in> set ys. snd y < snd M"
      unfolding M_def by blast
    show ?thesis
    proof (cases ys)
      case Nil
      with d have "M = b" and "xs = zs" by simp_all
      then have e: "b # a # xs = [] @ M # (a # zs)" by simp
      have "\<forall>y \<in> set ([] :: ('a \<times> real) list). snd y < snd M" by simp
      with e show ?thesis unfolding m by blast
    next
      case (Cons b' ys')
      with d have b': "b' = b" and xs: "xs = ys' @ M # zs" by simp_all
      from l Cons b' have "snd b < snd M" by simp
      with False have "snd a < snd M" by simp
      with l Cons b' have l': "\<forall>y \<in> set (b # a # ys'). snd y < snd M" by simp
      have e: "b # a # xs = (b # a # ys') @ M # zs" using xs by (metis append_Cons)
      show ?thesis unfolding m using e l' by blast
    qed
  qed
qed

lemma dict_argmax_first:
  assumes "dict_argmax d = Inr k"
  shows "\<exists>ys v zs. d = ys @ (k, v) # zs \<and> (\<forall>y \<in> set ys. snd y < v) \<and> (\<forall>y \<in> set d. snd y \<le> v)"
proof (cases d)
  case Nil
  with assms show ?thesis by (simp add: dict_argmax_def)
next
  case (Cons x xs)
  with assms have k: "k = fst (max_from x xs)" by (simp add: dict_argmax_def)
  from max_from_first [of x xs] obtain ys zs where
    d: "x # xs = ys @ max_from x xs # zs" and l: "\<forall>y \<in> set ys. snd y < snd (max_from x xs)"
    by blast
  have "\<forall>y \<in> set d. snd y \<le> snd (max_from x xs)"
    using max_from_ge [of _ x xs] Cons by blast
  with d l k Cons show ?thesis
    by (metis prod.collapse)
qed

lemma loop_body_cases:
  assumes "loop_body cv grid pd st = Inr c"
  shows "(\<exists>v s. axis_best cv grid pd st = Inr (v, s) \<and> fl_less (Fin s) (best_perf st) \<and>
        c = Break st) \<or>
     (\<exists>v s. axis_best cv grid pd st = Inr (v, s) \<and> \<not> fl_less (Fin s) (best_perf st) \<and>
        changing_param st < length (cur_params st) \<and> changing_param st < length (changed st) \<and>
        ctl_state c = \<lparr> cur_params = (cur_params st)[changing_param st := v],
                     changed = (changed st)[changing_param st := (v \<noteq> cur_params st ! changing_param st)],
                     changing_param = (changing_param st + 1) mod length grid,
                     perf = dict_set (perf st) ((cur_params st)[changing_param st := v]) s,
                     best_perf = Fin s \<rparr> \<and>
        (c = Break (ctl_state c) \<and> length grid < 2 \<or> c = Next (ctl_state c) \<and> \<not> length grid < 2))"
  using assms
  by (auto simp: loop_body_def bind_eq_Inr ctl_state_def Let_def split: if_splits)

lemmas toy_simps =
  cross_validate_gp_def cross_validate_fewshot_def toy_env_def toy_var_def toy_data_def
  toy_relevance_def toy_rel_def
  toy_cv_def toy_grid_def not_unnameable_def bind_def make_kfold_def kfold_split_def np_take_def
  toy_split_def gp_fold_def fewshot_fold_def fold_metric_def fit_targets_def np_put_def
  pooled_score_def np_read_def np_mean_def ap_score_def mse_def neg_sqrt_def upt_conv_Cons
  Let_def loop_body_def axis_best_def dict_get_def candidate_score_def cv_params_def
  evaluator_def pdist_def data_norm_def dot_def dict_argmax_def init_state_def

section \<open>The best performance never decreases\<close>

text \<open>
  Claim C9. One pass of the loop body either leaves through the regression stop with the
  state untouched, or replaces best-performance-so-far by the score of the best candidate
  of the axis, and that score is greater than or equal to the value it replaces.
\<close>

theorem best_perf_monotone:
  assumes "loop_body cv grid pd st = Inr c"
  shows "c = Break st \<or>
     (\<exists>v s. axis_best cv grid pd st = Inr (v, s) \<and> best_perf (ctl_state c) = Fin s \<and>
        fl_le (best_perf st) (Fin s))"
  using loop_body_cases [OF assms] by (auto intro: not_less_fl_le)

theorem best_perf_monotone_witness:
  "loop_body toy_cv toy_grid (pdist (X_train_norm toy_data)) (init_state [0, 3]) =
     Inr (Next \<lparr> cur_params = [0, 3], changed = [False, True], changing_param = 1,
                 perf = [([0, 3], 1)], best_perf = Fin 1 \<rparr>) \<and>
   (Next \<lparr> cur_params = [0, 3], changed = [False, True], changing_param = 1,
           perf = [([0, 3], 1)], best_perf = Fin 1 \<rparr> = Break (init_state [0, 3]) \<or>
    (\<exists>v s. axis_best toy_cv toy_grid (pdist (X_train_norm toy_data)) (init_state [0, 3]) = Inr (v, s) \<and>
       best_perf (ctl_state (Next \<lparr> cur_params = [0, 3], changed = [False, True],
          changing_param = 1, perf = [([0, 3], 1)], best_perf = Fin 1 \<rparr>)) = Fin s \<and>
       fl_le (best_perf (init_state [0, 3])) (Fin s)))"
proof -
  have h: "loop_body toy_cv toy_grid (pdist (X_train_norm toy_data)) (init_state [0, 3]) =
     Inr (Next \<lparr> cur_params = [0, 3], changed = [False, True], changing_param = 1,
                 perf = [([0, 3], 1)], best_perf = Fin 1 \<rparr>)"
    by (simp add: toy_simps)
  from best_perf_monotone [OF h] h show ?thesis by blast
qed

section \<open>The sweep of one axis\<close>

lemma sweep_Inr:
  "sweep sc vals d = Inr d' \<Longrightarrow>
     (\<forall>v \<in> set vals. sc v = Inr (projr (sc v))) \<and>
     d' = foldl (\<lambda>d v. dict_set d v (projr (sc v))) d vals"
  by (induction vals arbitrary: d) (auto split: sum.splits)

lemma dict_set_keyed:
  "dict_set (map (\<lambda>k. (k, f k)) K) v (f v) = map (\<lambda>k. (k, f k)) (if v \<in> set K then K else K @ [v])"
  by (induction K) auto

lemma foldl_dict_set_keyed:
  "foldl (\<lambda>d v. dict_set d v (f v)) (map (\<lambda>k. (k, f k)) K) vals =
     map (\<lambda>k. (k, f k)) (foldl (\<lambda>K v. if v \<in> set K then K else K @ [v]) K vals)"
proof (induction vals arbitrary: K)
  case Nil
  show ?case by simp
next
  case (Cons v vals)
  show ?case
    using Cons.IH [of "if v \<in> set K then K else K @ [v]"]
    by (simp only: foldl_Cons dict_set_keyed)
qed

lemma keys_set: "set (foldl (\<lambda>K v. if v \<in> set K then K else K @ [v]) K vals) = set K \<union> set vals"
  by (induction vals arbitrary: K) auto

lemma keys_distinct:
  "distinct K \<Longrightarrow> distinct (foldl (\<lambda>K v. if v \<in> set K then K else K @ [v]) K vals)"
  by (induction vals arbitrary: K) auto

lemma keys_prefix: "\<exists>R. foldl (\<lambda>K v. if v \<in> set K then K else K @ [v]) K vals = K @ R"
proof (induction vals arbitrary: K)
  case Nil
  show ?case by simp
next
  case (Cons v vals)
  from Cons.IH [of "if v \<in> set K then K else K @ [v]"] show ?case
    by (auto split: if_splits)
qed

lemma keys_split:
  assumes "b \<notin> set pre"
  shows "\<exists>P R. foldl (\<lambda>K v. if v \<in> set K then K else K @ [v]) [] (pre @ b # post) = P @ b # R \<and>
           set P = set pre"
proof -
  let ?ins = "\<lambda>K v. if v \<in> set K then K else K @ [v]"
  define P where "P = foldl ?ins [] pre"
  have sP: "set P = set pre" unfolding P_def by (simp add: keys_set)
  with assms have "foldl ?ins [] (pre @ b # post) = foldl ?ins (P @ [b]) post"
    by (simp add: P_def)
  moreover obtain R where "foldl ?ins (P @ [b]) post = (P @ [b]) @ R"
    using keys_prefix [of "P @ [b]" post] by blast
  ultimately have "foldl ?ins [] (pre @ b # post) = P @ b # R" by simp
  with sP show ?thesis by blast
qed

lemma sweep_argmax:
  assumes sw: "sweep sc vals [] = Inr d" and am: "dict_argmax d = Inr b"
  shows "\<exists>j < length vals. vals ! j = b \<and> dict_get d b = Inr (projr (sc b)) \<and>
           (\<forall>i < length vals. sc (vals ! i) = Inr (projr (sc (vals ! i))) \<and>
                projr (sc (vals ! i)) \<le> projr (sc b)) \<and>
           (\<forall>i < j. projr (sc (vals ! i)) < projr (sc b))"
proof -
  let ?f = "\<lambda>v. projr (sc v)"
  let ?g = "\<lambda>k. (k, ?f k)"
  let ?ins = "\<lambda>K v. if v \<in> set K then K else K @ [v]"
  define K where "K = foldl ?ins [] vals"
  from sweep_Inr [OF sw] have ok: "\<forall>v \<in> set vals. sc v = Inr (?f v)"
    and d: "d = foldl (\<lambda>d v. dict_set d v (?f v)) [] vals" by simp_all
  have dK: "d = map ?g K"
    using foldl_dict_set_keyed [of ?f "[]" vals] d by (simp add: K_def)
  have sK: "set K = set vals" by (simp add: K_def keys_set)
  have distK: "distinct K" unfolding K_def by (rule keys_distinct) simp
  from dict_argmax_first [OF am] obtain ys v zs where
    dec: "d = ys @ (b, v) # zs" and lt: "\<forall>y \<in> set ys. snd y < v" and le: "\<forall>y \<in> set d. snd y \<le> v"
    by blast
  from dec dK have "(b, v) \<in> set (map ?g K)" by simp
  then have bK: "b \<in> set K" and v: "v = ?f b" by auto
  from bK sK obtain pre post where vals: "vals = pre @ b # post" and npre: "b \<notin> set pre"
    by (auto dest: split_list_first)
  from keys_split [OF npre, of post] vals obtain P R where
    KP: "K = P @ b # R" and sP: "set P = set pre" by (auto simp: K_def)
  have "map fst d = K" by (simp add: dK comp_def)
  with dec KP have "map fst ys @ b # map fst zs = P @ b # R" by simp
  moreover from distK KP have "b \<notin> set P" "b \<notin> set R" by auto
  ultimately have P: "P = map fst ys"
    using append_Cons_eq_iff [of b P R "map fst ys" "map fst zs"] by simp
  have get: "dict_get d b = Inr (?f b)"
  proof -
    have "map_of (map ?g K) b = Some (?f b)" using bK by (induction K) auto
    then show ?thesis by (simp add: dict_get_def dK)
  qed
  have all: "\<forall>i < length vals. sc (vals ! i) = Inr (?f (vals ! i)) \<and> ?f (vals ! i) \<le> ?f b"
  proof (intro allI impI)
    fix i assume "i < length vals"
    then have m: "vals ! i \<in> set vals" by simp
    with sK have "?g (vals ! i) \<in> set d" by (simp add: dK)
    with le v have "?f (vals ! i) \<le> ?f b" by fastforce
    with ok m show "sc (vals ! i) = Inr (?f (vals ! i)) \<and> ?f (vals ! i) \<le> ?f b" by simp
  qed
  have before: "\<forall>i < length pre. ?f (vals ! i) < ?f b"
  proof (intro allI impI)
    fix i assume i: "i < length pre"
    then have "vals ! i = pre ! i" by (simp add: vals nth_append)
    with i have "vals ! i \<in> set pre" by simp
    with sP P have "vals ! i \<in> fst ` set ys" by simp
    then obtain y where y: "y \<in> set ys" and fy: "fst y = vals ! i" by (auto simp: image_iff)
    from y have "y \<in> set d" by (simp add: dec)
    then have "y \<in> set (map ?g K)" by (simp only: dK)
    then have "snd y = ?f (fst y)" by auto
    with lt y fy v show "?f (vals ! i) < ?f b" by auto
  qed
  have "length pre < length vals" "vals ! length pre = b" by (simp_all add: vals)
  with get all before show ?thesis by blast
qed

lemma axis_best_max:
  assumes "axis_best cv grid pd st = Inr (best_val, s)"
  shows "\<exists>vals j. dict_get grid (map fst grid ! changing_param st) = Inr vals \<and>
           j < length vals \<and> vals ! j = best_val \<and>
           candidate_score cv (map fst grid) (changing_param st) (cur_params st) pd best_val = Inr s \<and>
           (\<forall>i < length vals. \<exists>t.
              candidate_score cv (map fst grid) (changing_param st) (cur_params st) pd (vals ! i) = Inr t \<and>
              t \<le> s) \<and>
           (\<forall>i < j. \<exists>t.
              candidate_score cv (map fst grid) (changing_param st) (cur_params st) pd (vals ! i) = Inr t \<and>
              t < s)"
proof -
  let ?sc = "candidate_score cv (map fst grid) (changing_param st) (cur_params st) pd"
  from assms obtain vals d where
    g: "dict_get grid (map fst grid ! changing_param st) = Inr vals" and
    sw: "sweep ?sc vals [] = Inr d" and am: "dict_argmax d = Inr best_val" and
    get: "dict_get d best_val = Inr s"
    by (auto simp: axis_best_def bind_eq_Inr split: if_splits)
  from sweep_argmax [OF sw am] obtain j where j: "j < length vals" "vals ! j = best_val"
    and gb: "dict_get d best_val = Inr (projr (?sc best_val))"
    and all: "\<forall>i < length vals. ?sc (vals ! i) = Inr (projr (?sc (vals ! i))) \<and>
                projr (?sc (vals ! i)) \<le> projr (?sc best_val)"
    and before: "\<forall>i < j. projr (?sc (vals ! i)) < projr (?sc best_val)"
    by blast
  from gb get have s: "s = projr (?sc best_val)" by simp
  from all j have "?sc best_val = Inr s" unfolding s by blast
  moreover from all s have "\<forall>i < length vals. \<exists>t. ?sc (vals ! i) = Inr t \<and> t \<le> s" by blast
  moreover have "\<forall>i < j. \<exists>t. ?sc (vals ! i) = Inr t \<and> t < s"
  proof (intro allI impI)
    fix i assume i: "i < j"
    with j have "i < length vals" by simp
    with all have "?sc (vals ! i) = Inr (projr (?sc (vals ! i)))" by blast
    moreover from before i have "projr (?sc (vals ! i)) < s" unfolding s by blast
    ultimately show "\<exists>t. ?sc (vals ! i) = Inr t \<and> t < s" by blast
  qed
  ultimately show ?thesis using g j by blast
qed

text \<open>
  Claim C8. The value chosen on an axis is a candidate of that axis whose score is
  maximal among all candidates, and every candidate listed before it in the grid has a
  strictly smaller score: among equal maximal scores the earliest listed wins.
\<close>

theorem stable_argmax:
  assumes "axis_best cv grid pd st = Inr (best_val, s)"
  shows "\<exists>vals j. dict_get grid (map fst grid ! changing_param st) = Inr vals \<and>
           j < length vals \<and> vals ! j = best_val \<and>
           candidate_score cv (map fst grid) (changing_param st) (cur_params st) pd best_val = Inr s \<and>
           (\<forall>i < length vals. \<exists>t.
              candidate_score cv (map fst grid) (changing_param st) (cur_params st) pd (vals ! i) = Inr t \<and>
              t \<le> s) \<and>
           (\<forall>i < j. \<exists>t.
              candidate_score cv (map fst grid) (changing_param st) (cur_params st) pd (vals ! i) = Inr t \<and>
              t < s)"
  using axis_best_max [OF assms] .

theorem stable_argmax_witness:
  "axis_best toy_cv [(''length_scale'', [1, 0, - 1])] (pdist (X_train_norm toy_data))
      (init_state [1]) = Inr (0, 1) \<and>
   (\<exists>vals j. dict_get [(''length_scale'', [1, 0, - 1])]
        (map fst [(''length_scale'', [1, 0, - 1 :: real])] ! changing_param (init_state [1])) = Inr vals \<and>
      j < length vals \<and> vals ! j = 0 \<and>
      candidate_score toy_cv (map fst [(''length_scale'', [1, 0, - 1 :: real])])
        (changing_param (init_state [1])) (cur_params (init_state [1]))
        (pdist (X_train_norm toy_data)) 0 = Inr 1 \<and>
      (\<forall>i < length vals. \<exists>t.
         candidate_score toy_cv (map fst [(''length_scale'', [1, 0, - 1 :: real])])
           (changing_param (init_state [1])) (cur_params (init_state [1]))
           (pdist (X_train_norm toy_data)) (vals ! i) = Inr t \<and> t \<le> 1) \<and>
      (\<forall>i < j. \<exists>t.
         candidate_score toy_cv (map fst [(''length_scale'', [1, 0, - 1 :: real])])
           (changing_param (init_state [1])) (cur_params (init_state [1]))
           (pdist (X_train_norm toy_data)) (vals ! i) = Inr t \<and> t < 1))"
proof -
  have h: "axis_best toy_cv [(''length_scale'', [1, 0, - 1])] (pdist (X_train_norm toy_data))
      (init_state [1]) = Inr (0, 1)"
    by (simp add: toy_simps)
  from stable_argmax [OF h] h show ?thesis by blast
qed

section \<open>Runs of the loop\<close>

lemma while_loop_best_perf:
  assumes "while_loop cv grid pd st = Some r"
  shows "\<forall>st' a. r = Inr st' \<longrightarrow> best_perf st = Fin a \<longrightarrow> (\<exists>b. best_perf st' = Fin b \<and> a \<le> b)"
  using assms
proof (induction rule: while_loop.raw_induct [rotated 1, consumes 1])
  case (1 wl cv grid pd st r)
  show ?case
  proof (intro allI impI)
    fix st' a
    assume r: "r = Inr st'" and a: "best_perf st = Fin a"
    show "\<exists>b. best_perf st' = Fin b \<and> a \<le> b"
    proof (cases "list_ex (\<lambda>b. b) (changed st)")
      case False
      with 1(2) r a show ?thesis by simp
    next
      case True
      with 1(2) r obtain c where c: "loop_body cv grid pd st = Inr c"
        by (auto split: sum.splits)
      from loop_body_cases [OF c] consider
        (brk) "c = Break st" |
        (upd) v s where "\<not> fl_less (Fin s) (best_perf st)"
          "ctl_state c = \<lparr> cur_params = (cur_params st)[changing_param st := v],
                     changed = (changed st)[changing_param st := (v \<noteq> cur_params st ! changing_param st)],
                     changing_param = (changing_param st + 1) mod length grid,
                     perf = dict_set (perf st) ((cur_params st)[changing_param st := v]) s,
                     best_perf = Fin s \<rparr>"
          "c = Break (ctl_state c) \<and> length grid < 2 \<or> c = Next (ctl_state c) \<and> \<not> length grid < 2"
        by blast
      then show ?thesis
      proof cases
        case brk
        with 1(2) True c r a show ?thesis by simp
      next
        case upd
        note nl = upd(1) and cs = upd(2) and kind = upd(3)
        from nl a have as: "a \<le> s" by simp
        from cs have bs: "best_perf (ctl_state c) = Fin s" by simp
        from kind show ?thesis
        proof
          assume "c = Break (ctl_state c) \<and> length grid < 2"
          then have "c = Break (ctl_state c)" ..
          with 1(2) True c r have "st' = ctl_state c" by (auto split: sum.splits ctl.splits)
          with bs as show ?thesis by simp
        next
          assume "c = Next (ctl_state c) \<and> \<not> length grid < 2"
          then have "c = Next (ctl_state c)" ..
          with 1(2) True c r have "wl cv grid pd (ctl_state c) = Some (Inr st')"
            by (auto split: sum.splits ctl.splits)
          from 1(1) [OF this] bs have "\<exists>b. best_perf st' = Fin b \<and> s \<le> b" by simp
          then obtain b where "best_perf st' = Fin b" "s \<le> b" by blast
          with as show ?thesis by auto
        qed
      qed
    qed
  qed
qed

lemma cv_params_from_eq:
  assumes "cp < length cur" and "\<forall>i \<in> set is. i < length cur"
  shows "cv_params_from names cp cur val is d =
     Inr (foldl (\<lambda>d i. dict_set d (names ! i) (Num (cur[cp := val] ! i))) d is)"
  using assms by (induction "is" arbitrary: d) auto

lemma cv_params_config:
  assumes "cp < length cur" and "length names \<le> length cur"
  shows "cv_params names cp cur val pd = Inr (config_params names (cur[cp := val]) pd)"
  using assms by (simp add: cv_params_def config_params_def cv_params_from_eq)

lemma init_params_length: "init_params init names = Inr cur \<Longrightarrow> length cur = length names"
  by (induction names arbitrary: cur) (auto split: option.splits sum.splits)

lemma init_params_nth:
  "init_params init names = Inr cur \<Longrightarrow> i < length names \<Longrightarrow> init (names ! i) = Some (cur ! i)"
proof (induction names arbitrary: cur i)
  case Nil
  then show ?case by simp
next
  case (Cons p ps)
  then show ?case by (cases i) (auto split: option.splits sum.splits)
qed

lemma init_params_cong:
  "\<forall>p \<in> set names. init p = init' p \<Longrightarrow> init_params init names = init_params init' names"
  by (induction names) (simp_all split: option.splits)

lemma dict_set_map_fst:
  "map fst (dict_set d k v) = (if k \<in> set (map fst d) then map fst d else map fst d @ [k])"
  by (induction d) (auto simp: rev_image_eqI)

lemma dict_set_keys: "fst ` set (dict_set d k v) = insert k (fst ` set d)"
proof -
  have "set (map fst (dict_set d k v)) = insert k (set (map fst d))"
    by (simp only: dict_set_map_fst) auto
  then show ?thesis by simp
qed

lemma cv_params_from_keys:
  "cv_params_from names cp cur val is d = Inr ps \<Longrightarrow> \<forall>i \<in> set is. i < length names \<Longrightarrow>
     fst ` set ps \<subseteq> set names \<union> fst ` set d"
proof (induction "is" arbitrary: d)
  case Nil
  then show ?case by auto
next
  case (Cons i "is")
  from Cons.prems have i: "names ! i \<in> set names" by simp
  from Cons.prems(1) obtain x where
    "cv_params_from names cp cur val is (dict_set d (names ! i) x) = Inr ps"
    by (auto split: if_splits)
  from Cons.IH [OF this] Cons.prems(2) i show ?case
    by (auto simp: dict_set_keys)
qed

lemma cv_params_keys:
  assumes "cv_params names cp cur val pd = Inr ps"
  shows "fst ` set ps \<subseteq> set names \<union> {''pdist''}"
proof -
  from assms obtain d where d: "cv_params_from names cp cur val [0..<length names] [] = Inr d"
    and ps: "ps = dict_set d ''pdist'' (Dist pd)"
    by (auto simp: cv_params_def bind_eq_Inr)
  from cv_params_from_keys [OF d] have "fst ` set d \<subseteq> set names" by simp
  with ps show ?thesis by (auto simp: dict_set_keys)
qed

lemma dict_get_head: "dict_get ((p, vals) # rest) p = Inr vals"
  by (simp add: dict_get_def)


lemmas run_simps = optimize_gp_params_def while_loop.simps finish_def

section \<open>The regression stop\<close>

lemma loop_iter_Suc:
  assumes "loop_iter cv grid pd (Suc n) st0 = Some st"
  shows "\<exists>st1. list_ex (\<lambda>b. b) (changed st0) \<and> loop_body cv grid pd st0 = Inr (Next st1) \<and>
           loop_iter cv grid pd n st1 = Some st"
  using assms by (auto split: if_splits sum.splits ctl.splits)

lemma loop_iter_while:
  "loop_iter cv grid pd n st0 = Some st \<Longrightarrow> while_loop cv grid pd st0 = while_loop cv grid pd st"
proof (induction n arbitrary: st0)
  case 0
  then show ?case by simp
next
  case (Suc n)
  from loop_iter_Suc [OF Suc.prems] obtain st1 where
    ch: "list_ex (\<lambda>b. b) (changed st0)" and lb: "loop_body cv grid pd st0 = Inr (Next st1)" and
    it: "loop_iter cv grid pd n st1 = Some st" by blast
  from ch lb have "while_loop cv grid pd st0 = while_loop cv grid pd st1"
    by (subst while_loop.simps) simp
  with Suc.IH [OF it] show ?case by simp
qed

lemma dict_set_not_Nil: "dict_set d k v \<noteq> []"
  by (cases d) (auto split: if_splits)

lemma loop_body_Next_perf:
  assumes "loop_body cv grid pd st = Inr (Next st1)"
  shows "perf st1 \<noteq> []"
  using loop_body_cases [OF assms] by (auto simp: ctl_state_def dict_set_not_Nil)

lemma loop_iter_perf:
  "loop_iter cv grid pd n st0 = Some st \<Longrightarrow> st = st0 \<or> perf st \<noteq> []"
proof (induction n arbitrary: st0)
  case 0
  then show ?case by simp
next
  case (Suc n)
  from loop_iter_Suc [OF Suc.prems] obtain st1 where
    lb: "loop_body cv grid pd st0 = Inr (Next st1)" and
    it: "loop_iter cv grid pd n st1 = Some st" by blast
  from loop_body_Next_perf [OF lb] have "perf st1 \<noteq> []" .
  with Suc.IH [OF it] show ?case by auto
qed

text \<open>
  Claim C2. Take a run of the optimizer that has come to the head of the loop in a state
  \<open>st\<close> after some passes, with a changed flag set, and let the best score of the
  current axis be strictly less than best-performance-so-far. Then the loop ends there
  with the state as it was, and the optimizer returns the first entry of the performance
  history whose recorded score is the greatest of the history: every entry before it
  scores strictly less and no entry scores more. It is returned wherever in the history
  it stands, with best-performance-so-far (negated for regression) as the score.
\<close>

theorem regression_stop:
  assumes ip: "init_params init (map fst grid) = Inr cur"
    and reach: "loop_iter (evaluator E ds relevance n_folds fewshot) grid
        (pdist (X_train_norm ds)) n (init_state cur) = Some st"
    and ch: "list_ex (\<lambda>b. b) (changed st)"
    and ab: "axis_best (evaluator E ds relevance n_folds fewshot) grid
        (pdist (X_train_norm ds)) st = Inr (best_val, s)"
    and lt: "fl_less (Fin s) (best_perf st)"
  shows "while_loop (evaluator E ds relevance n_folds fewshot) grid
            (pdist (X_train_norm ds)) st = Some (Inr st) \<and>
         (\<exists>ys key v zs.
            perf st = ys @ (key, v) # zs \<and>
            (\<forall>y \<in> set ys. snd y < v) \<and>
            (\<forall>e \<in> set (perf st). snd e \<le> v) \<and>
            optimize_gp_params E ds relevance grid init n_folds fewshot =
              Some (Inr (zip (map fst grid) key,
                         (case relevance of Some rel \<Rightarrow> best_perf st
                          | None \<Rightarrow> fl_neg (best_perf st)))))"
proof -
  let ?cv = "evaluator E ds relevance n_folds fewshot"
  let ?pd = "pdist (X_train_norm ds)"
  from ab lt have "loop_body ?cv grid ?pd st = Inr (Break st)"
    by (simp add: loop_body_def)
  with ch have stop: "while_loop ?cv grid ?pd st = Some (Inr st)"
    by (subst while_loop.simps) simp
  with loop_iter_while [OF reach]
  have run: "while_loop ?cv grid ?pd (init_state cur) = Some (Inr st)" by simp
  from lt have "best_perf st \<noteq> NegInf" by (cases "best_perf st") simp_all
  then have "st \<noteq> init_state cur" by (auto simp: init_state_def)
  with loop_iter_perf [OF reach] have ne: "perf st \<noteq> []" by simp
  then obtain key where k: "dict_argmax (perf st) = Inr key"
    by (cases "perf st") (simp_all add: dict_argmax_def)
  from dict_argmax_first [OF k] obtain ys v zs where
    d: "perf st = ys @ (key, v) # zs" and l: "\<forall>y \<in> set ys. snd y < v"
    and g: "\<forall>y \<in> set (perf st). snd y \<le> v" by blast
  from ip run k
  have "optimize_gp_params E ds relevance grid init n_folds fewshot =
              Some (Inr (zip (map fst grid) key,
                         (case relevance of Some rel \<Rightarrow> best_perf st
                          | None \<Rightarrow> fl_neg (best_perf st))))"
    by (simp add: optimize_gp_params_def finish_def)
  with d l g stop show ?thesis by blast
qed

theorem regression_stop_witness:
  "init_params (map_of [(''noise'', 0), (''var'', 4), (''length_scale'', 0)])
      (map fst [(''noise'', [0 :: real]), (''var'', [3]), (''length_scale'', [1])]) = Inr [0, 4, 0] \<and>
   loop_iter (evaluator toy_env toy_data toy_relevance 2 False)
      [(''noise'', [0]), (''var'', [3]), (''length_scale'', [1])]
      (pdist (X_train_norm toy_data)) (Suc (Suc 0)) (init_state [0, 4, 0]) =
     Some \<lparr> cur_params = [0, 3, 0], changed = [False, True, True], changing_param = 2,
            perf = [([0, 4, 0], 1), ([0, 3, 0], 1)], best_perf = Fin 1 \<rparr> \<and>
   list_ex (\<lambda>b. b) (changed \<lparr> cur_params = [0, 3, 0], changed = [False, True, True],
      changing_param = 2, perf = [([0, 4, 0], 1), ([0, 3, 0], 1)], best_perf = Fin 1 \<rparr>) \<and>
   axis_best (evaluator toy_env toy_data toy_relevance 2 False)
      [(''noise'', [0]), (''var'', [3]), (''length_scale'', [1])]
      (pdist (X_train_norm toy_data))
      \<lparr> cur_params = [0, 3, 0], changed = [False, True, True], changing_param = 2,
        perf = [([0, 4, 0], 1), ([0, 3, 0], 1)], best_perf = Fin 1 \<rparr> = Inr (1, 5 / 12) \<and>
   fl_less (Fin (5 / 12)) (best_perf \<lparr> cur_params = [0, 3, 0], changed = [False, True, True],
      changing_param = 2, perf = [([0, 4, 0], 1), ([0, 3, 0], 1)], best_perf = Fin 1 \<rparr>) \<and>
   (\<exists>ys key v zs.
      perf \<lparr> cur_params = [0, 3, 0], changed = [False, True, True], changing_param = 2,
        perf = [([0, 4, 0], 1), ([0, 3, 0], 1)], best_perf = Fin 1 \<rparr> = ys @ (key, v) # zs \<and>
      (\<forall>y \<in> set ys. snd y < v) \<and>
      (\<forall>e \<in> set (perf \<lparr> cur_params = [0, 3, 0], changed = [False, True, True],
          changing_param = 2, perf = [([0, 4, 0], 1), ([0, 3, 0], 1)], best_perf = Fin 1 \<rparr>).
         snd e \<le> v) \<and>
      optimize_gp_params toy_env toy_data toy_relevance
          [(''noise'', [0]), (''var'', [3]), (''length_scale'', [1])]
          (map_of [(''noise'', 0), (''var'', 4), (''length_scale'', 0)]) 2 False =
        Some (Inr (zip (map fst [(''noise'', [0 :: real]), (''var'', [3]), (''length_scale'', [1])]) key,
                   (case toy_relevance of
                      Some rel \<Rightarrow> best_perf \<lparr> cur_params = [0, 3, 0],
                        changed = [False, True, True], changing_param = 2,
                        perf = [([0, 4, 0], 1), ([0, 3, 0], 1)], best_perf = Fin 1 \<rparr>
                    | None \<Rightarrow> fl_neg (best_perf \<lparr> cur_params = [0, 3, 0],
                        changed = [False, True, True], changing_param = 2,
                        perf = [([0, 4, 0], 1), ([0, 3, 0], 1)], best_perf = Fin 1 \<rparr>))))) \<and>
   optimize_gp_params toy_env toy_data toy_relevance
       [(''noise'', [0]), (''var'', [3]), (''length_scale'', [1])]
       (map_of [(''noise'', 0), (''var'', 4), (''length_scale'', 0)]) 2 False =
     Some (Inr ([(''noise'', 0), (''var'', 4), (''length_scale'', 0)], Fin 1))"
proof -
  let ?grid = "[(''noise'', [0 :: real]), (''var'', [3]), (''length_scale'', [1])]"
  let ?st = "\<lparr> cur_params = [0, 3, 0], changed = [False, True, True], changing_param = 2,
        perf = [([0, 4, 0], 1 :: real), ([0, 3, 0], 1)], best_perf = Fin 1 \<rparr>"
  have h1: "init_params (map_of [(''noise'', 0), (''var'', 4), (''length_scale'', 0)])
      (map fst ?grid) = Inr [0, 4, 0]"
    by simp
  have h2: "loop_iter (evaluator toy_env toy_data toy_relevance 2 False) ?grid
      (pdist (X_train_norm toy_data)) (Suc (Suc 0)) (init_state [0, 4, 0]) = Some ?st"
    by (simp add: toy_simps)
  have h3: "list_ex (\<lambda>b. b) (changed ?st)" by simp
  have h4: "axis_best (evaluator toy_env toy_data toy_relevance 2 False) ?grid
      (pdist (X_train_norm toy_data)) ?st = Inr (1, 5 / 12)"
    by (simp add: toy_simps)
  have h5: "fl_less (Fin (5 / 12)) (best_perf ?st)" by simp
  note c = regression_stop [OF h1 h2 h3 h4 h5]
  have r: "optimize_gp_params toy_env toy_data toy_relevance ?grid
       (map_of [(''noise'', 0), (''var'', 4), (''length_scale'', 0)]) 2 False =
     Some (Inr ([(''noise'', 0), (''var'', 4), (''length_scale'', 0)], Fin 1))"
    using c by (auto simp: toy_relevance_def Cons_eq_append_conv)
  show ?thesis by (intro conjI) (rule h1 h2 h3 h4 h5 r c [THEN conjunct2])+
qed

section \<open>Parameters outside the grid\<close>

text \<open>
  Claim C10. The optimizer reads \<open>init\<close> only at the names of the grid: two dicts that
  agree there give the same run. The keyword arguments handed to the evaluator, and by
  it to the predictor, carry the names of the grid and \<open>pdist\<close> and nothing else.
\<close>

theorem init_outside_grid_unread:
  assumes "\<forall>p \<in> set (map fst grid). init p = init' p"
  shows "optimize_gp_params E ds relevance grid init n_folds fewshot =
           optimize_gp_params E ds relevance grid init' n_folds fewshot \<and>
         (\<forall>cp cur val pd ps. cv_params (map fst grid) cp cur val pd = Inr ps \<longrightarrow>
            fst ` set ps \<subseteq> set (map fst grid) \<union> {''pdist''})"
proof
  from init_params_cong [OF assms]
  show "optimize_gp_params E ds relevance grid init n_folds fewshot =
           optimize_gp_params E ds relevance grid init' n_folds fewshot"
    by (simp add: optimize_gp_params_def)
next
  show "\<forall>cp cur val pd ps. cv_params (map fst grid) cp cur val pd = Inr ps \<longrightarrow>
            fst ` set ps \<subseteq> set (map fst grid) \<union> {''pdist''}"
    using cv_params_keys by blast
qed

theorem init_outside_grid_unread_witness:
  "optimize_gp_params toy_env toy_data toy_relevance toy_grid
      (map_of [(''length_scale'', 0), (''var'', 3)]) 2 False =
   optimize_gp_params toy_env toy_data toy_relevance toy_grid
      (map_of [(''length_scale'', 0), (''var'', 3), (''noise'', 7)]) 2 False"
proof -
  have h: "\<forall>p \<in> set (map fst toy_grid).
      (map_of [(''length_scale'', 0 :: real), (''var'', 3)]) p =
      (map_of [(''length_scale'', 0), (''var'', 3), (''noise'', 7)]) p"
    by (simp add: toy_grid_def)
  from init_outside_grid_unread [OF h, of toy_env toy_data toy_relevance 2 False]
  show ?thesis by blast
qed

section \<open>The returned score and the initial configuration\<close>

text \<open>
  Claim C1, as stated, fails: the initial configuration is scored only when the initial
  value of the first parameter is one of its candidates. With the grid
  \<open>length_scale: [1]\<close> and the initial value 0 the optimizer returns the score 5/12 of
  \<open>length_scale = 1\<close>, while the initial configuration scores 1.
\<close>

theorem optimizer_below_init_counterexample:
  "optimize_gp_params toy_env toy_data toy_relevance [(''length_scale'', [1])]
     (map_of [(''length_scale'', 0)]) 2 False = Some (Inr ([(''length_scale'', 1)], Fin (5 / 12))) \<and>
   evaluator toy_env toy_data toy_relevance 2 False
     (config_params [''length_scale''] [0] (pdist (X_train_norm toy_data))) = Inr 1 \<and>
   (5 / 12 :: real) < 1"
  by (simp add: run_simps config_params_def toy_simps)

text \<open>
  Claim C1, amended. When the initial value of the first parameter of the grid is among
  the candidates of that parameter and the optimizer returns, the evaluator gives the
  initial configuration a score, and the best performance the optimizer ends with is
  greater than or equal to it. The score returned is that best performance for a
  retrieval task and its negation for a regression task.
\<close>

theorem optimizer_not_below_init:
  assumes g: "grid = (p, vals) # rest"
    and ip: "init_params init (map fst grid) = Inr cur"
    and v: "init p = Some v" and mem: "v \<in> set vals"
    and run: "optimize_gp_params E ds relevance grid init n_folds fewshot = Some (Inr (cfg, score))"
  shows "\<exists>s0 s. evaluator E ds relevance n_folds fewshot
            (config_params (map fst grid) cur (pdist (X_train_norm ds))) = Inr s0 \<and>
          s0 \<le> s \<and> score = (case relevance of Some rel \<Rightarrow> Fin s | None \<Rightarrow> Fin (- s))"
proof -
  let ?cv = "evaluator E ds relevance n_folds fewshot"
  let ?pd = "pdist (X_train_norm ds)"
  let ?names = "map fst grid"
  from run ip obtain st' where wl: "while_loop ?cv grid ?pd (init_state cur) = Some (Inr st')"
    and fin: "finish ?names relevance st' = Inr (cfg, score)"
    by (auto simp: optimize_gp_params_def split: option.splits sum.splits)
  from init_params_length [OF ip] g have len: "length cur = Suc (length rest)" by simp
  from init_params_nth [OF ip, of 0] g v have cur0: "cur ! 0 = v" by simp
  from len have ex: "list_ex (\<lambda>b. b) (changed (init_state cur))"
    by (cases cur) (simp_all add: init_state_def)
  from wl ex obtain c where c: "loop_body ?cv grid ?pd (init_state cur) = Inr c"
    and after: "(case c of Break st1 \<Rightarrow> Some (Inr st1) | Next st1 \<Rightarrow> while_loop ?cv grid ?pd st1) = Some (Inr st')"
    by (subst (asm) while_loop.simps) (auto split: sum.splits)
  from loop_body_cases [OF c] obtain v1 s1 where
    ab: "axis_best ?cv grid ?pd (init_state cur) = Inr (v1, s1)" and
    bp: "best_perf (ctl_state c) = Fin s1" and
    kind: "c = Break (ctl_state c) \<or> c = Next (ctl_state c)"
    by (auto simp: init_state_def)
  from axis_best_max [OF ab] g obtain j where
    all: "\<forall>i < length vals. \<exists>t.
       candidate_score ?cv ?names 0 cur ?pd (vals ! i) = Inr t \<and> t \<le> s1"
    by (auto simp: init_state_def dict_get_head)
  from mem obtain i where "i < length vals" "vals ! i = v" by (auto simp: in_set_conv_nth)
  with all obtain s0 where sc: "candidate_score ?cv ?names 0 cur ?pd v = Inr s0" and le: "s0 \<le> s1"
    by auto
  from len g have "cv_params ?names 0 cur v ?pd = Inr (config_params ?names (cur[0 := v]) ?pd)"
    by (intro cv_params_config) simp_all
  moreover from cur0 have "cur[0 := v] = cur" by (metis list_update_id)
  ultimately have s0: "?cv (config_params ?names cur ?pd) = Inr s0"
    using sc by (simp add: candidate_score_def)
  have "\<exists>b. best_perf st' = Fin b \<and> s1 \<le> b"
  proof -
    from kind show ?thesis
    proof
      assume "c = Break (ctl_state c)"
      with after have "st' = ctl_state c" by (auto split: ctl.splits)
      with bp show ?thesis by simp
    next
      assume "c = Next (ctl_state c)"
      with after have "while_loop ?cv grid ?pd (ctl_state c) = Some (Inr st')"
        by (auto split: ctl.splits)
      from while_loop_best_perf [OF this] bp show ?thesis by simp
    qed
  qed
  then obtain b where b: "best_perf st' = Fin b" and sb: "s1 \<le> b" by blast
  from fin b have "score = (case relevance of Some rel \<Rightarrow> Fin b | None \<Rightarrow> Fin (- b))"
    by (auto simp: finish_def bind_eq_Inr split: option.splits)
  with s0 le sb show ?thesis by (intro exI [of _ s0] exI [of _ b]) simp
qed

theorem optimizer_not_below_init_witness:
  "toy_grid = (''length_scale'', [1, 0]) # [(''var'', [3, 4])] \<and>
   init_params (map_of [(''length_scale'', 0), (''var'', 3)]) (map fst toy_grid) = Inr [0, 3] \<and>
   (map_of [(''length_scale'', 0 :: real), (''var'', 3)]) ''length_scale'' = Some 0 \<and>
   (0 :: real) \<in> set [1, 0] \<and>
   optimize_gp_params toy_env toy_data toy_relevance toy_grid
      (map_of [(''length_scale'', 0), (''var'', 3)]) 2 False =
     Some (Inr ([(''length_scale'', 0), (''var'', 3)], Fin 1)) \<and>
   (\<exists>s0 s. evaluator toy_env toy_data toy_relevance 2 False
        (config_params (map fst toy_grid) [0, 3] (pdist (X_train_norm toy_data))) = Inr s0 \<and>
      s0 \<le> s \<and> Fin 1 = (case toy_relevance of Some rel \<Rightarrow> Fin s | None \<Rightarrow> Fin (- s)))"
proof -
  have h1: "toy_grid = (''length_scale'', [1, 0]) # [(''var'', [3, 4])]"
    by (simp add: toy_grid_def)
  have h2: "init_params (map_of [(''length_scale'', 0), (''var'', 3)]) (map fst toy_grid) = Inr [0, 3]"
    by (simp add: toy_grid_def)
  have h3: "(map_of [(''length_scale'', 0 :: real), (''var'', 3)]) ''length_scale'' = Some 0"
    by simp
  have h4: "(0 :: real) \<in> set [1, 0]" by simp
  have h5: "optimize_gp_params toy_env toy_data toy_relevance toy_grid
      (map_of [(''length_scale'', 0), (''var'', 3)]) 2 False =
     Some (Inr ([(''length_scale'', 0), (''var'', 3)], Fin 1))"
    by (simp add: run_simps toy_simps)
  from optimizer_not_below_init [OF h1 h2 h3 h4 h5] h1 h2 h3 h4 h5 show ?thesis by blast
qed

section \<open>Samples of relevance zero\<close>

lemma bind_cong_Inr: "(\<And>x. m = Inr x \<Longrightarrow> f x = g x) \<Longrightarrow> bind m f = bind m g"
  by (cases m) simp_all

lemma np_take_Inr: "np_take a idx = Inr xs \<Longrightarrow> set xs \<subseteq> set a \<and> length xs = length idx"
  by (auto simp: np_take_def split: if_splits)

lemma not_unnameable_eligible:
  "not_unnameable ds (Some rel) = Inr nu \<Longrightarrow> set nu \<subseteq> eligible rel"
  by (auto simp: not_unnameable_def eligible_def split: if_splits)

lemma not_unnameable_props:
  "not_unnameable ds relevance = Inr nu \<Longrightarrow> distinct nu \<and> (\<forall>i \<in> set nu. i < length (X_train ds))"
  by (auto simp: not_unnameable_def split: option.splits if_splits)

lemma not_unnameable_set:
  "not_unnameable ds (Some rel) = Inr nu \<Longrightarrow> set nu = eligible rel"
  by (auto simp: not_unnameable_def eligible_def split: if_splits)


lemma bind_cong2:
  "m = m' \<Longrightarrow> (\<And>x. m' = Inr x \<Longrightarrow> f x = g x) \<Longrightarrow> bind m f = bind m' g"
  by (cases m') simp_all

lemma fold_metric_ext:
  "fold_metric (E\<lparr>gp_fit := f', gp_predict_stored := p'\<rparr>) ds relevance nu ind sc =
   fold_metric E ds relevance nu ind sc"
  by (simp add: fold_metric_def split: option.splits)

lemma gp_fold_ext:
  assumes f: "\<forall>g idx t. set idx \<subseteq> A \<longrightarrow> f' g idx t = gp_fit E g idx t"
    and p: "\<forall>g idx. set idx \<subseteq> A \<longrightarrow> p' g idx = gp_predict_stored E g idx"
    and nu: "set nu \<subseteq> A"
  shows "gp_fold (E\<lparr>gp_fit := f', gp_predict_stored := p'\<rparr>) ds relevance nu fd st =
         gp_fold E ds relevance nu fd st"
proof -
  obtain train_ind test_ind where fd: "fd = (train_ind, test_ind)" by (cases fd)
  obtain gp scores where st: "st = (gp, scores)" by (cases st)
  have fit: "gp_fit (E\<lparr>gp_fit := f', gp_predict_stored := p'\<rparr>) g tr t = gp_fit E g tr t"
    if "np_take nu train_ind = Inr tr" for g tr t
    using f nu np_take_Inr [OF that] by auto
  have pred: "gp_predict_stored (E\<lparr>gp_fit := f', gp_predict_stored := p'\<rparr>) g te =
              gp_predict_stored E g te"
    if "np_take nu test_ind = Inr te" for g te
    using p nu np_take_Inr [OF that] by auto
  show ?thesis
    unfolding gp_fold_def fd st prod.case
    by (intro bind_cong2 refl) (erule fit pred)+
qed

lemma gp_folds_ext:
  assumes "\<forall>g idx t. set idx \<subseteq> A \<longrightarrow> f' g idx t = gp_fit E g idx t"
    and "\<forall>g idx. set idx \<subseteq> A \<longrightarrow> p' g idx = gp_predict_stored E g idx"
    and "set nu \<subseteq> A"
  shows "gp_folds (E\<lparr>gp_fit := f', gp_predict_stored := p'\<rparr>) ds relevance nu fs st =
         gp_folds E ds relevance nu fs st"
  by (induction fs arbitrary: st) (simp_all add: gp_fold_ext [OF assms] split: sum.splits)

lemma fewshot_fold_ext:
  assumes f: "\<forall>g idx t. set idx \<subseteq> A \<longrightarrow> f' g idx t = gp_fit E g idx t"
    and p: "\<forall>g idx. set idx \<subseteq> A \<longrightarrow> p' g idx = gp_predict_stored E g idx"
    and nu: "set nu \<subseteq> A"
  shows "fewshot_fold (E\<lparr>gp_fit := f', gp_predict_stored := p'\<rparr>) ds relevance nu fd st =
         fewshot_fold E ds relevance nu fd st"
proof -
  obtain train_ind test_ind where fd: "fd = (train_ind, test_ind)" by (cases fd)
  obtain gp perf where st: "st = (gp, perf)" by (cases st)
  have fit: "gp_fit (E\<lparr>gp_fit := f', gp_predict_stored := p'\<rparr>) g te t = gp_fit E g te t"
    if "np_take nu test_ind = Inr te" for g te t
    using f nu np_take_Inr [OF that] by auto
  have pred: "gp_predict_stored (E\<lparr>gp_fit := f', gp_predict_stored := p'\<rparr>) g tr =
              gp_predict_stored E g tr"
    if "np_take nu train_ind = Inr tr" for g tr
    using p nu np_take_Inr [OF that] by auto
  show ?thesis
    unfolding fewshot_fold_def fd st prod.case fold_metric_ext
    by (intro bind_cong2 refl) (erule fit pred)+
qed

lemma fewshot_folds_ext:
  assumes "\<forall>g idx t. set idx \<subseteq> A \<longrightarrow> f' g idx t = gp_fit E g idx t"
    and "\<forall>g idx. set idx \<subseteq> A \<longrightarrow> p' g idx = gp_predict_stored E g idx"
    and "set nu \<subseteq> A"
  shows "fewshot_folds (E\<lparr>gp_fit := f', gp_predict_stored := p'\<rparr>) ds relevance nu fs st =
         fewshot_folds E ds relevance nu fs st"
  by (induction fs arbitrary: st) (simp_all add: fewshot_fold_ext [OF assms] split: sum.splits)

lemma other_fields_ext:
  "make_kfold (E\<lparr>gp_fit := f', gp_predict_stored := p'\<rparr>) relevance k = make_kfold E relevance k"
  "kfold_split (E\<lparr>gp_fit := f', gp_predict_stored := p'\<rparr>) ds relevance nu kf =
     kfold_split E ds relevance nu kf"
  "pooled_score (E\<lparr>gp_fit := f', gp_predict_stored := p'\<rparr>) ds relevance nu sc =
     pooled_score E ds relevance nu sc"
  by (simp_all add: make_kfold_def kfold_split_def pooled_score_def cong: option.case_cong)

text \<open>
  Claim C3. For a relevance vector \<open>rel\<close>, neither evaluator hands the predictor a
  sample of relevance 0. The results of both evaluators stay the same when \<open>fit\<close> and
  \<open>predict\<close> are replaced by functions that agree with them on the index lists made of
  eligible samples only and do anything else elsewhere; and whatever positions a fold
  names, the samples taken at them have nonzero relevance.
\<close>

theorem zero_relevance_never_used:
  assumes f: "\<forall>g idx t. set idx \<subseteq> eligible rel \<longrightarrow> f' g idx t = gp_fit E g idx t"
    and p: "\<forall>g idx. set idx \<subseteq> eligible rel \<longrightarrow> p' g idx = gp_predict_stored E g idx"
  shows "cross_validate_gp (E\<lparr>gp_fit := f', gp_predict_stored := p'\<rparr>) ds (Some rel) params n_folds =
           cross_validate_gp E ds (Some rel) params n_folds \<and>
         cross_validate_fewshot (E\<lparr>gp_fit := f', gp_predict_stored := p'\<rparr>) ds (Some rel) params n_folds =
           cross_validate_fewshot E ds (Some rel) params n_folds \<and>
         (\<forall>nu ind samples. not_unnameable ds (Some rel) = Inr nu \<longrightarrow>
            np_take nu ind = Inr samples \<longrightarrow> (\<forall>i \<in> set samples. rel ! i \<noteq> 0))"
proof (intro conjI)
  show "cross_validate_gp (E\<lparr>gp_fit := f', gp_predict_stored := p'\<rparr>) ds (Some rel) params n_folds =
           cross_validate_gp E ds (Some rel) params n_folds"
    unfolding cross_validate_gp_def other_fields_ext
    by (rule bind_cong_Inr)
       (simp add: gp_folds_ext [OF f p not_unnameable_eligible])
  show "cross_validate_fewshot (E\<lparr>gp_fit := f', gp_predict_stored := p'\<rparr>) ds (Some rel) params n_folds =
           cross_validate_fewshot E ds (Some rel) params n_folds"
    unfolding cross_validate_fewshot_def other_fields_ext
    by (rule bind_cong_Inr)
       (simp add: fewshot_folds_ext [OF f p not_unnameable_eligible])
  show "\<forall>nu ind samples. not_unnameable ds (Some rel) = Inr nu \<longrightarrow>
            np_take nu ind = Inr samples \<longrightarrow> (\<forall>i \<in> set samples. rel ! i \<noteq> 0)"
    using not_unnameable_eligible np_take_Inr by (fastforce simp: eligible_def)
qed

theorem zero_relevance_never_used_witness:
  "cross_validate_gp (toy_env\<lparr>gp_fit := guarded_fit toy_rel toy_env,
        gp_predict_stored := guarded_predict toy_rel toy_env\<rparr>) toy_data (Some toy_rel)
        [(''length_scale'', Num 0)] 2 =
     cross_validate_gp toy_env toy_data (Some toy_rel) [(''length_scale'', Num 0)] 2 \<and>
   cross_validate_fewshot (toy_env\<lparr>gp_fit := guarded_fit toy_rel toy_env,
        gp_predict_stored := guarded_predict toy_rel toy_env\<rparr>) toy_data (Some toy_rel)
        [(''length_scale'', Num 0)] 2 =
     cross_validate_fewshot toy_env toy_data (Some toy_rel) [(''length_scale'', Num 0)] 2"
proof -
  have h1: "\<forall>g idx t. set idx \<subseteq> eligible toy_rel \<longrightarrow>
      guarded_fit toy_rel toy_env g idx t = gp_fit toy_env g idx t"
    by (simp add: guarded_fit_def)
  have h2: "\<forall>g idx. set idx \<subseteq> eligible toy_rel \<longrightarrow>
      guarded_predict toy_rel toy_env g idx = gp_predict_stored toy_env g idx"
    by (simp add: guarded_predict_def)
  from zero_relevance_never_used [OF h1 h2, of toy_data "[(''length_scale'', Num 0)]" 2]
  show ?thesis by blast
qed

section \<open>The pooled predictions\<close>

lemma put_all_length: "length (put_all a idx vals) = length a"
  by (induction a idx vals rule: put_all.induct) simp_all

lemma put_all_other: "p \<notin> set idx \<Longrightarrow> put_all a idx vals ! p = a ! p"
  by (induction a idx vals rule: put_all.induct) simp_all

lemma put_all_nth:
  "length vals = length idx \<Longrightarrow> distinct idx \<Longrightarrow> \<forall>i \<in> set idx. i < length a \<Longrightarrow>
     q < length idx \<Longrightarrow> put_all a idx vals ! (idx ! q) = a ! (idx ! q) @ [vals ! q]"
proof (induction a idx vals arbitrary: q rule: put_all.induct)
  case (1 a i idx v vals)
  show ?case
  proof (cases q)
    case 0
    with 1 show ?thesis by (simp add: put_all_other)
  next
    case (Suc q')
    with 1(5) have q': "q' < length idx" by simp
    with 1(3) have ne: "idx ! q' \<noteq> i" by auto
    from 1(2,3,4) q' have "put_all (a[i := a ! i @ [v]]) idx vals ! (idx ! q') =
        (a[i := a ! i @ [v]]) ! (idx ! q') @ [vals ! q']"
      by (intro 1(1)) simp_all
    with ne Suc show ?thesis by simp
  qed
qed simp_all

lemma np_put_Inr:
  assumes "np_put a idx vals = Inr a'" and "distinct idx"
  shows "length a' = length a \<and> (\<forall>p. p \<notin> set idx \<longrightarrow> a' ! p = a ! p) \<and>
         (\<forall>i \<in> set idx. i < length a) \<and>
         (\<forall>q < length idx. a' ! (idx ! q) =
            a ! (idx ! q) @ [if length vals = length idx then vals ! q else hd vals])"
proof -
  from assms(1) have rng: "\<forall>i \<in> set idx. i < length a"
    by (auto simp: np_put_def split: if_splits)
  define ws where "ws = (if length vals = length idx then vals else replicate (length idx) (hd vals))"
  from assms(1) have a': "a' = put_all a idx ws" and len: "length ws = length idx"
    by (auto simp: np_put_def ws_def split: if_splits)
  have "\<forall>q < length idx. a' ! (idx ! q) = a ! (idx ! q) @ [ws ! q]"
    unfolding a' using put_all_nth [OF len assms(2) rng] by blast
  moreover have "\<forall>q < length idx. ws ! q = (if length vals = length idx then vals ! q else hd vals)"
    by (simp add: ws_def)
  ultimately show ?thesis using rng by (simp add: a' put_all_length put_all_other)
qed

lemma np_take_map: "np_take a idx = Inr xs \<Longrightarrow> xs = map (\<lambda>p. a ! p) idx \<and> (\<forall>p \<in> set idx. p < length a)"
  by (auto simp: np_take_def split: if_splits)

lemma not_unnameable_None_nth:
  "not_unnameable ds None = Inr nu \<Longrightarrow> p < length nu \<Longrightarrow> nu ! p = p"
  by (auto simp: not_unnameable_def)

lemma fit_targets_spec:
  assumes nu: "not_unnameable ds relevance = Inr nu"
    and s: "np_take nu ind = Inr samples"
    and t: "fit_targets ds relevance nu ind = Inr targets"
  shows "targets = spec_labels ds relevance samples"
proof (cases relevance)
  case None
  from np_take_map [OF s] have sm: "samples = map (\<lambda>p. nu ! p) ind"
    and rng: "\<forall>p \<in> set ind. p < length nu" by simp_all
  from nu None rng have "\<forall>p \<in> set ind. nu ! p = p"
    by (simp add: not_unnameable_None_nth)
  then have "map (\<lambda>i. y_train ds ! i) samples = map (\<lambda>p. y_train ds ! p) ind"
    unfolding sm by simp
  moreover from t None have "targets = map (\<lambda>p. y_train ds ! p) ind"
    by (simp add: fit_targets_def np_take_map)
  ultimately show ?thesis using None by (simp add: spec_labels_def)
next
  case (Some rel)
  with t s obtain r where "np_take rel samples = Inr r" "targets = map real_of_int r"
    by (auto simp: fit_targets_def bind_eq_Inr)
  with np_take_map [of rel samples r] Some show ?thesis
    by (simp add: spec_labels_def)
qed

lemma gp_fold_spec:
  assumes nu: "not_unnameable ds relevance = Inr nu"
    and run: "gp_fold E ds relevance nu fd (gp, sc) = Inr (gp', sc')"
  shows "\<exists>pred. spec_fit_predict E ds relevance gp (train_samples nu fd) (test_samples nu fd) =
             Inr (gp', pred) \<and>
           np_put sc (snd fd) pred = Inr sc'"
proof -
  obtain train_ind test_ind where fd: "fd = (train_ind, test_ind)" by (cases fd)
  from run obtain tr targets te pred where
    tr: "np_take nu train_ind = Inr tr" and
    tg: "fit_targets ds relevance nu train_ind = Inr targets" and
    fit: "gp_fit E gp tr targets = Inr gp'" and
    te: "np_take nu test_ind = Inr te" and
    pr: "gp_predict_stored E gp' te = Inr pred" and
    put: "np_put sc test_ind pred = Inr sc'"
    by (auto simp: gp_fold_def fd bind_eq_Inr)
  from np_take_map [OF tr] fd have trs: "tr = train_samples nu fd" by (simp add: train_samples_def)
  from np_take_map [OF te] fd have tes: "te = test_samples nu fd" by (simp add: test_samples_def)
  from fit_targets_spec [OF nu tr tg] have "targets = spec_labels ds relevance tr" .
  with fit pr trs tes have "spec_fit_predict E ds relevance gp (train_samples nu fd) (test_samples nu fd) =
             Inr (gp', pred)"
    by (simp add: spec_fit_predict_def)
  with put fd show ?thesis by auto
qed


lemma distinct_concat_nth:
  "distinct (concat xss) \<Longrightarrow> i < length xss \<Longrightarrow> j < length xss \<Longrightarrow> i \<noteq> j \<Longrightarrow>
     set (xss ! i) \<inter> set (xss ! j) = {}"
proof (induction xss arbitrary: i j)
  case Nil
  then show ?case by simp
next
  case (Cons xs xss)
  show ?case
  proof (cases i)
    case 0
    with Cons.prems obtain j' where j: "j = Suc j'" "j' < length xss" by (cases j) auto
    then have "xss ! j' \<in> set xss" by simp
    then have "set (xss ! j') \<subseteq> set (concat xss)" by auto
    with Cons.prems(1) 0 j show ?thesis by auto
  next
    case (Suc i')
    show ?thesis
    proof (cases j)
      case 0
      from Suc Cons.prems have "xss ! i' \<in> set xss" by simp
      then have "set (xss ! i') \<subseteq> set (concat xss)" by auto
      with Cons.prems(1) 0 Suc show ?thesis by auto
    next
      case (Suc j')
      with \<open>i = Suc i'\<close> Cons.prems Cons.IH [of i' j'] show ?thesis by simp
    qed
  qed
qed

lemma gp_folds_writes:
  assumes nu: "not_unnameable ds relevance = Inr nu"
  shows "gp_folds E ds relevance nu fs (gp, sc) = Inr (gp', sc') \<Longrightarrow>
     distinct (concat (map snd fs)) \<Longrightarrow>
     length sc' = length sc \<and>
     (\<forall>p. p \<notin> set (concat (map snd fs)) \<longrightarrow> sc' ! p = sc ! p) \<and>
     (\<forall>p \<in> set (concat (map snd fs)). p < length sc) \<and>
     (\<exists>gps preds. length gps = Suc (length fs) \<and> length preds = length fs \<and> gps ! 0 = gp \<and>
        (\<forall>j < length fs.
           spec_fit_predict E ds relevance (gps ! j) (train_samples nu (fs ! j))
               (test_samples nu (fs ! j)) = Inr (gps ! Suc j, preds ! j) \<and>
           (\<forall>q < length (snd (fs ! j)).
              sc' ! (snd (fs ! j) ! q) =
                sc ! (snd (fs ! j) ! q) @
                  [if length (preds ! j) = length (snd (fs ! j)) then preds ! j ! q
                   else hd (preds ! j)])))"
proof (induction fs arbitrary: gp sc)
  case Nil
  then have "sc' = sc" by simp
  then show ?case by (simp add: exI [of _ "[gp]"])
next
  case (Cons fd fs)
  from Cons.prems(1) obtain g1 s1 where
    one: "gp_fold E ds relevance nu fd (gp, sc) = Inr (g1, s1)" and
    rest: "gp_folds E ds relevance nu fs (g1, s1) = Inr (gp', sc')"
    by (auto split: sum.splits)
  from Cons.prems(2) have d1: "distinct (snd fd)" and d2: "distinct (concat (map snd fs))"
    and dj: "set (snd fd) \<inter> set (concat (map snd fs)) = {}"
    by simp_all
  from gp_fold_spec [OF nu one] obtain pred where
    sp: "spec_fit_predict E ds relevance gp (train_samples nu fd) (test_samples nu fd) =
           Inr (g1, pred)" and
    put: "np_put sc (snd fd) pred = Inr s1" by blast
  from np_put_Inr [OF put d1] have
    len1: "length s1 = length sc" and
    oth1: "\<forall>p. p \<notin> set (snd fd) \<longrightarrow> s1 ! p = sc ! p" and
    rng1: "\<forall>i \<in> set (snd fd). i < length sc" and
    wr1: "\<forall>q < length (snd fd). s1 ! (snd fd ! q) =
            sc ! (snd fd ! q) @ [if length pred = length (snd fd) then pred ! q else hd pred]"
    by simp_all
  from Cons.IH [OF rest d2] obtain gps preds where
    len2: "length sc' = length s1" and
    oth2: "\<forall>p. p \<notin> set (concat (map snd fs)) \<longrightarrow> sc' ! p = s1 ! p" and
    rng2: "\<forall>p \<in> set (concat (map snd fs)). p < length s1" and
    lg: "length gps = Suc (length fs)" and lp: "length preds = length fs" and g0: "gps ! 0 = g1" and
    all: "\<forall>j < length fs.
           spec_fit_predict E ds relevance (gps ! j) (train_samples nu (fs ! j))
               (test_samples nu (fs ! j)) = Inr (gps ! Suc j, preds ! j) \<and>
           (\<forall>q < length (snd (fs ! j)).
              sc' ! (snd (fs ! j) ! q) =
                s1 ! (snd (fs ! j) ! q) @
                  [if length (preds ! j) = length (snd (fs ! j)) then preds ! j ! q
                   else hd (preds ! j)])"
    by blast
  have c1: "length sc' = length sc" using len1 len2 by simp
  have c2: "\<forall>p. p \<notin> set (concat (map snd (fd # fs))) \<longrightarrow> sc' ! p = sc ! p"
    using oth1 oth2 by simp
  have c3: "\<forall>p \<in> set (concat (map snd (fd # fs))). p < length sc"
    using rng1 rng2 len1 by auto
  have c4: "\<forall>j < length (fd # fs).
           spec_fit_predict E ds relevance ((gp # gps) ! j) (train_samples nu ((fd # fs) ! j))
               (test_samples nu ((fd # fs) ! j)) = Inr ((gp # gps) ! Suc j, (pred # preds) ! j) \<and>
           (\<forall>q < length (snd ((fd # fs) ! j)).
              sc' ! (snd ((fd # fs) ! j) ! q) =
                sc ! (snd ((fd # fs) ! j) ! q) @
                  [if length ((pred # preds) ! j) = length (snd ((fd # fs) ! j))
                   then (pred # preds) ! j ! q else hd ((pred # preds) ! j)])"
  proof (intro allI impI)
    fix j assume j: "j < length (fd # fs)"
    show "spec_fit_predict E ds relevance ((gp # gps) ! j) (train_samples nu ((fd # fs) ! j))
               (test_samples nu ((fd # fs) ! j)) = Inr ((gp # gps) ! Suc j, (pred # preds) ! j) \<and>
           (\<forall>q < length (snd ((fd # fs) ! j)).
              sc' ! (snd ((fd # fs) ! j) ! q) =
                sc ! (snd ((fd # fs) ! j) ! q) @
                  [if length ((pred # preds) ! j) = length (snd ((fd # fs) ! j))
                   then (pred # preds) ! j ! q else hd ((pred # preds) ! j)])"
    proof (cases j)
      case 0
      have "\<forall>q < length (snd fd). sc' ! (snd fd ! q) =
              sc ! (snd fd ! q) @ [if length pred = length (snd fd) then pred ! q else hd pred]"
      proof (intro allI impI)
        fix q assume q: "q < length (snd fd)"
        then have "snd fd ! q \<in> set (snd fd)" by simp
        with dj have "snd fd ! q \<notin> set (concat (map snd fs))" by blast
        with oth2 have "sc' ! (snd fd ! q) = s1 ! (snd fd ! q)" by blast
        with wr1 q show "sc' ! (snd fd ! q) =
              sc ! (snd fd ! q) @ [if length pred = length (snd fd) then pred ! q else hd pred]"
          by simp
      qed
      with 0 sp g0 show ?thesis by simp
    next
      case (Suc j')
      with j have j': "j' < length fs" by simp
      have "\<forall>q < length (snd (fs ! j')). s1 ! (snd (fs ! j') ! q) = sc ! (snd (fs ! j') ! q)"
      proof (intro allI impI)
        fix q assume q: "q < length (snd (fs ! j'))"
        then have "snd (fs ! j') ! q \<in> set (snd (fs ! j'))" by simp
        moreover from j' have "snd (fs ! j') \<in> set (map snd fs)" by simp
        ultimately have "snd (fs ! j') ! q \<in> set (concat (map snd fs))"
          unfolding set_concat by blast
        with dj have "snd (fs ! j') ! q \<notin> set (snd fd)" by blast
        with oth1 show "s1 ! (snd (fs ! j') ! q) = sc ! (snd (fs ! j') ! q)" by blast
      qed
      with all j' Suc show ?thesis by simp
    qed
  qed
  from lg lp c4 have "\<exists>gps' preds'. length gps' = Suc (length (fd # fs)) \<and>
      length preds' = length (fd # fs) \<and> gps' ! 0 = gp \<and>
        (\<forall>j < length (fd # fs).
           spec_fit_predict E ds relevance (gps' ! j) (train_samples nu ((fd # fs) ! j))
               (test_samples nu ((fd # fs) ! j)) = Inr (gps' ! Suc j, preds' ! j) \<and>
           (\<forall>q < length (snd ((fd # fs) ! j)).
              sc' ! (snd ((fd # fs) ! j) ! q) =
                sc ! (snd ((fd # fs) ! j) ! q) @
                  [if length (preds' ! j) = length (snd ((fd # fs) ! j))
                   then preds' ! j ! q else hd (preds' ! j)]))"
    by (intro exI [of _ "gp # gps"] exI [of _ "pred # preds"]) simp
  with c1 c2 c3 show ?case by blast
qed


lemma np_read_written:
  assumes "\<forall>p < length a. a ! p \<noteq> []"
  shows "np_read g a = map last a"
proof -
  have "np_read g a = map (\<lambda>i. last (a ! i)) [0..<length a]"
    unfolding np_read_def by (rule map_cong) (use assms in auto)
  also have "\<dots> = map last (map ((!) a) [0..<length a])"
    by (simp only: map_map o_def)
  also have "\<dots> = map last a" by (simp only: map_nth)
  finally show ?thesis .
qed

lemma gp_folds_written_once:
  assumes nu: "not_unnameable ds relevance = Inr nu"
    and part: "partitions fs (length nu)"
    and run: "gp_folds E ds relevance nu fs (gp, replicate (length nu) []) = Inr (gp', scores)"
  shows "length scores = length nu \<and>
     (\<exists>gps preds. length gps = Suc (length fs) \<and> length preds = length fs \<and> gps ! 0 = gp \<and>
        (\<forall>j < length fs.
           spec_fit_predict E ds relevance (gps ! j) (train_samples nu (fs ! j))
               (test_samples nu (fs ! j)) = Inr (gps ! Suc j, preds ! j) \<and>
           (\<forall>q < length (snd (fs ! j)).
              scores ! (snd (fs ! j) ! q) =
                  [if length (preds ! j) = length (snd (fs ! j)) then preds ! j ! q
                   else hd (preds ! j)])))"
proof -
  from part have dist: "distinct (concat (map snd fs))"
    and cover: "set (concat (map snd fs)) = {0..<length nu}"
    by (simp_all add: partitions_def)
  from gp_folds_writes [OF nu run dist] obtain gps preds where
    len: "length scores = length (replicate (length nu) ([] :: real list))" and
    lg: "length gps = Suc (length fs)" and lp: "length preds = length fs" and g0: "gps ! 0 = gp" and
    all: "\<forall>j < length fs.
           spec_fit_predict E ds relevance (gps ! j) (train_samples nu (fs ! j))
               (test_samples nu (fs ! j)) = Inr (gps ! Suc j, preds ! j) \<and>
           (\<forall>q < length (snd (fs ! j)).
              scores ! (snd (fs ! j) ! q) =
                replicate (length nu) [] ! (snd (fs ! j) ! q) @
                  [if length (preds ! j) = length (snd (fs ! j)) then preds ! j ! q
                   else hd (preds ! j)])"
    by blast
  have "\<forall>j < length fs.
           spec_fit_predict E ds relevance (gps ! j) (train_samples nu (fs ! j))
               (test_samples nu (fs ! j)) = Inr (gps ! Suc j, preds ! j) \<and>
           (\<forall>q < length (snd (fs ! j)).
              scores ! (snd (fs ! j) ! q) =
                  [if length (preds ! j) = length (snd (fs ! j)) then preds ! j ! q
                   else hd (preds ! j)])"
  proof (intro allI impI conjI)
    fix j assume j: "j < length fs"
    with all show "spec_fit_predict E ds relevance (gps ! j) (train_samples nu (fs ! j))
               (test_samples nu (fs ! j)) = Inr (gps ! Suc j, preds ! j)" by blast
    fix q assume q: "q < length (snd (fs ! j))"
    then have "snd (fs ! j) ! q \<in> set (snd (fs ! j))" by simp
    moreover from j have "snd (fs ! j) \<in> set (map snd fs)" by simp
    ultimately have "snd (fs ! j) ! q \<in> set (concat (map snd fs))"
      unfolding set_concat by blast
    with cover have "snd (fs ! j) ! q < length nu" by simp
    then have "replicate (length nu) ([] :: real list) ! (snd (fs ! j) ! q) = []" by simp
    with all j q show "scores ! (snd (fs ! j) ! q) =
                  [if length (preds ! j) = length (snd (fs ! j)) then preds ! j ! q
                   else hd (preds ! j)]" by simp
  qed
  with len lg lp g0 show ?thesis by (simp del: hd_conv_nth) blast
qed

lemma cells_written_once:
  assumes part: "partitions fs n"
    and cells: "\<forall>j < length fs. \<forall>q < length (snd (fs ! j)). \<exists>v. sc ! (snd (fs ! j) ! q) = [v]"
  shows "\<forall>p < n. length (sc ! p) = 1"
proof (intro allI impI)
  fix p assume "p < n"
  with part have "p \<in> set (concat (map snd fs))" by (simp add: partitions_def)
  then obtain xs where "xs \<in> set (map snd fs)" "p \<in> set xs" unfolding set_concat by blast
  then obtain j q where "j < length fs" "xs = snd (fs ! j)" "q < length xs" "xs ! q = p"
    by (auto simp: in_set_conv_nth)
  with cells obtain v where "sc ! p = [v]" by blast
  then show "length (sc ! p) = 1" by simp
qed

lemma uninit_fields:
  "make_kfold (E\<lparr>uninit := u\<rparr>) relevance k = make_kfold E relevance k"
  "kfold_split (E\<lparr>uninit := u\<rparr>) ds relevance nu kf = kfold_split E ds relevance nu kf"
  "gp_fold (E\<lparr>uninit := u\<rparr>) ds relevance nu fd st = gp_fold E ds relevance nu fd st"
  by (simp_all add: make_kfold_def kfold_split_def gp_fold_def cong: option.case_cong)

lemma uninit_gp_folds:
  "gp_folds (E\<lparr>uninit := u\<rparr>) ds relevance nu fs st = gp_folds E ds relevance nu fs st"
  by (induction fs arbitrary: st) (simp_all add: uninit_fields split: sum.splits)

lemma pooled_score_written:
  "\<forall>p < length sc. sc ! p \<noteq> [] \<Longrightarrow>
     pooled_score (E\<lparr>uninit := u\<rparr>) ds relevance nu sc = pooled_score E ds relevance nu sc"
  by (simp add: pooled_score_def np_read_written cong: option.case_cong)

lemma cross_validate_gp_uninit:
  assumes part: "\<forall>nu kf fs. not_unnameable ds relevance = Inr nu \<longrightarrow>
        make_kfold E relevance n_folds = Inr kf \<longrightarrow>
        kfold_split E ds relevance nu kf = Inr fs \<longrightarrow> partitions fs (length nu)"
  shows "cross_validate_gp (E\<lparr>uninit := u\<rparr>) ds relevance params n_folds =
           cross_validate_gp E ds relevance params n_folds"
proof -
  have gpc: "GaussianProcess (E\<lparr>uninit := u\<rparr>) = GaussianProcess E" by simp
  show ?thesis
    unfolding cross_validate_gp_def uninit_fields uninit_gp_folds gpc
  proof (intro bind_cong2 refl)
    fix nu gp kf fs res
    assume nu: "not_unnameable ds relevance = Inr nu"
      and kf: "make_kfold E relevance n_folds = Inr kf"
      and fs: "kfold_split E ds relevance nu kf = Inr fs"
      and run: "gp_folds E ds relevance nu fs (gp, replicate (length nu) []) = Inr res"
    obtain gp' scores where res: "res = (gp', scores)" by (cases res)
    from part nu kf fs have p: "partitions fs (length nu)" by blast
    from gp_folds_written_once [OF nu p run [unfolded res]] obtain gps preds where
      len: "length scores = length nu" and
      cells: "\<forall>j < length fs. \<forall>q < length (snd (fs ! j)). \<exists>v. scores ! (snd (fs ! j) ! q) = [v]"
      by blast
    from cells_written_once [OF p cells] len have "\<forall>p < length scores. scores ! p \<noteq> []"
      by (metis length_0_conv zero_neq_one)
    then show "(case res of (gp', scores) \<Rightarrow> pooled_score (E\<lparr>uninit := u\<rparr>) ds relevance nu scores) =
               (case res of (gp', scores) \<Rightarrow> pooled_score E ds relevance nu scores)"
      by (simp add: res pooled_score_written)
  qed
qed

text \<open>
  Claim C4. The splitter is not part of this module; its test index lists are taken to
  partition the positions of the eligible samples, as k-fold splitting does. Then the
  test samples of different folds are disjoint and together they are the eligible
  samples; when the folds are done every cell of the prediction array has been assigned
  to exactly once, and what it holds is the prediction for its sample by the predictor
  fitted on the train samples of the fold that tests the sample (one prediction for a
  whole fold is broadcast); reading the array back meets no cell that was never
  assigned to, and the evaluator's result does not depend on what the fresh array held.
\<close>

theorem pooled_scores_written_once:
  assumes nu: "not_unnameable ds relevance = Inr nu"
    and gp: "GaussianProcess E (X_train_norm ds) params = Inr gp"
    and kf: "make_kfold E relevance n_folds = Inr kf"
    and fs: "kfold_split E ds relevance nu kf = Inr fs"
    and part: "partitions fs (length nu)"
    and run: "gp_folds E ds relevance nu fs (gp, replicate (length nu) []) = Inr (gp', scores)"
  shows "(\<forall>i < length fs. \<forall>j < length fs. i \<noteq> j \<longrightarrow>
            set (test_samples nu (fs ! i)) \<inter> set (test_samples nu (fs ! j)) = {}) \<and>
         (\<Union>fd \<in> set fs. set (test_samples nu fd)) = set nu \<and>
         (\<forall>rel. relevance = Some rel \<longrightarrow> set nu = eligible rel) \<and>
         length scores = length nu \<and>
         (\<forall>p < length nu. length (scores ! p) = 1) \<and>
         (\<exists>gps preds. length gps = Suc (length fs) \<and> length preds = length fs \<and> gps ! 0 = gp \<and>
            (\<forall>j < length fs.
               spec_fit_predict E ds relevance (gps ! j) (train_samples nu (fs ! j))
                   (test_samples nu (fs ! j)) = Inr (gps ! Suc j, preds ! j) \<and>
               (\<forall>q < length (snd (fs ! j)).
                  scores ! (snd (fs ! j) ! q) =
                      [if length (preds ! j) = length (snd (fs ! j)) then preds ! j ! q
                       else hd (preds ! j)]))) \<and>
         (\<forall>g. np_read g scores = map last scores) \<and>
         cross_validate_gp (E\<lparr>uninit := u\<rparr>) ds relevance params n_folds =
           cross_validate_gp E ds relevance params n_folds"
proof -
  from part have dist: "distinct (concat (map snd fs))"
    and cover: "set (concat (map snd fs)) = {0..<length nu}"
    by (simp_all add: partitions_def)
  from not_unnameable_props [OF nu] have dnu: "distinct nu" by simp
  have inj: "inj_on ((!) nu) {0..<length nu}"
    using dnu by (auto simp: inj_on_def nth_eq_iff_index_eq)
  have sub: "set (snd fd) \<subseteq> {0..<length nu}" if "fd \<in> set fs" for fd
    using that cover by auto
  have ts: "set (test_samples nu fd) = (!) nu ` set (snd fd)" for fd
    by (auto simp: test_samples_def)
  have c1: "\<forall>i < length fs. \<forall>j < length fs. i \<noteq> j \<longrightarrow>
            set (test_samples nu (fs ! i)) \<inter> set (test_samples nu (fs ! j)) = {}"
  proof (intro allI impI)
    fix i j assume ij: "i < length fs" "j < length fs" "i \<noteq> j"
    with distinct_concat_nth [OF dist, of i j]
    have "set (snd (fs ! i)) \<inter> set (snd (fs ! j)) = {}" by simp
    moreover from ij sub have "set (snd (fs ! i)) \<subseteq> {0..<length nu}"
      "set (snd (fs ! j)) \<subseteq> {0..<length nu}" by simp_all
    ultimately show "set (test_samples nu (fs ! i)) \<inter> set (test_samples nu (fs ! j)) = {}"
      unfolding ts using inj by (metis inj_on_image_Int image_empty)
  qed
  have "(\<Union>fd \<in> set fs. set (test_samples nu fd)) = (!) nu ` set (concat (map snd fs))"
    unfolding ts by auto
  also have "\<dots> = set nu" unfolding cover by (auto simp: set_conv_nth)
  finally have c2: "(\<Union>fd \<in> set fs. set (test_samples nu fd)) = set nu" .
  have c3: "\<forall>rel. relevance = Some rel \<longrightarrow> set nu = eligible rel"
    using nu not_unnameable_set by blast
  from gp_folds_written_once [OF nu part run] obtain gps preds where
    c4: "length scores = length nu" and
    lg: "length gps = Suc (length fs)" and lp: "length preds = length fs" and g0: "gps ! 0 = gp" and
    all: "\<forall>j < length fs.
               spec_fit_predict E ds relevance (gps ! j) (train_samples nu (fs ! j))
                   (test_samples nu (fs ! j)) = Inr (gps ! Suc j, preds ! j) \<and>
               (\<forall>q < length (snd (fs ! j)).
                  scores ! (snd (fs ! j) ! q) =
                      [if length (preds ! j) = length (snd (fs ! j)) then preds ! j ! q
                       else hd (preds ! j)])"
    by blast
  from all have cells: "\<forall>j < length fs. \<forall>q < length (snd (fs ! j)). \<exists>v. scores ! (snd (fs ! j) ! q) = [v]"
    by blast
  from cells_written_once [OF part cells] have c5: "\<forall>p < length nu. length (scores ! p) = 1" .
  from lg lp g0 all have c6: "\<exists>gps preds. length gps = Suc (length fs) \<and> length preds = length fs \<and> gps ! 0 = gp \<and>
            (\<forall>j < length fs.
               spec_fit_predict E ds relevance (gps ! j) (train_samples nu (fs ! j))
                   (test_samples nu (fs ! j)) = Inr (gps ! Suc j, preds ! j) \<and>
               (\<forall>q < length (snd (fs ! j)).
                  scores ! (snd (fs ! j) ! q) =
                      [if length (preds ! j) = length (snd (fs ! j)) then preds ! j ! q
                       else hd (preds ! j)]))"
    by blast
  from c5 c4 have ne: "\<forall>p < length scores. scores ! p \<noteq> []"
    by (metis length_0_conv zero_neq_one)
  then have c7: "\<forall>g. np_read g scores = map last scores"
    by (simp add: np_read_written)
  from nu kf fs part have "\<forall>nu kf fs. not_unnameable ds relevance = Inr nu \<longrightarrow>
        make_kfold E relevance n_folds = Inr kf \<longrightarrow>
        kfold_split E ds relevance nu kf = Inr fs \<longrightarrow> partitions fs (length nu)"
    by simp
  then have c8: "cross_validate_gp (E\<lparr>uninit := u\<rparr>) ds relevance params n_folds =
           cross_validate_gp E ds relevance params n_folds"
    by (rule cross_validate_gp_uninit)
  from c1 c2 c3 c4 c5 c6 c7 c8 show ?thesis by (intro conjI)
qed


theorem pooled_scores_written_once_witness:
  "not_unnameable toy_data toy_relevance = Inr [0, 1, 2, 3] \<and>
   GaussianProcess toy_env (X_train_norm toy_data) [(''length_scale'', Num 0)] =
     Inr ([1, 2, - 1, - 2, 5], 1) \<and>
   make_kfold toy_env toy_relevance 2 = Inr (2, Some 0) \<and>
   kfold_split toy_env toy_data toy_relevance [0, 1, 2, 3] (2, Some 0) =
     Inr [([1, 3], [0, 2]), ([0, 2], [1, 3])] \<and>
   partitions [([1, 3], [0, 2]), ([0, 2], [1, 3])] (length [0, 1, 2, 3 :: nat]) \<and>
   gp_folds toy_env toy_data toy_relevance [0, 1, 2, 3] [([1, 3], [0, 2]), ([0, 2], [1, 3])]
       (([1, 2, - 1, - 2, 5], 1), replicate (length [0, 1, 2, 3 :: nat]) []) =
     Inr (([1, 2, - 1, - 2, 5], 1), [[1], [2], [- 1], [- 2]]) \<and>
   (\<Union>fd \<in> set [([1, 3 :: nat], [0, 2 :: nat]), ([0, 2], [1, 3])].
       set (test_samples [0, 1, 2, 3] fd)) = set [0, 1, 2, 3] \<and>
   length [[1], [2], [- 1], [- 2 :: real]] = length [0, 1, 2, 3 :: nat] \<and>
   (\<exists>gps preds. length gps = Suc (length [([1, 3 :: nat], [0, 2 :: nat]), ([0, 2], [1, 3])]) \<and>
      length preds = length [([1, 3 :: nat], [0, 2 :: nat]), ([0, 2], [1, 3])] \<and>
      gps ! 0 = ([1, 2, - 1, - 2, 5], 1) \<and>
      (\<forall>j < length [([1, 3 :: nat], [0, 2 :: nat]), ([0, 2], [1, 3])].
         spec_fit_predict toy_env toy_data toy_relevance (gps ! j)
             (train_samples [0, 1, 2, 3] ([([1, 3], [0, 2]), ([0, 2], [1, 3])] ! j))
             (test_samples [0, 1, 2, 3] ([([1, 3], [0, 2]), ([0, 2], [1, 3])] ! j)) =
           Inr (gps ! Suc j, preds ! j) \<and>
         (\<forall>q < length (snd ([([1, 3 :: nat], [0, 2 :: nat]), ([0, 2], [1, 3])] ! j)).
            [[1], [2], [- 1], [- 2]] ! (snd ([([1, 3 :: nat], [0, 2 :: nat]), ([0, 2], [1, 3])] ! j) ! q) =
              [if length (preds ! j) = length (snd ([([1, 3 :: nat], [0, 2 :: nat]), ([0, 2], [1, 3])] ! j))
               then preds ! j ! q else hd (preds ! j)]))) \<and>
   cross_validate_gp (toy_env\<lparr>uninit := (\<lambda>i. 7)\<rparr>) toy_data toy_relevance
       [(''length_scale'', Num 0)] 2 =
     cross_validate_gp toy_env toy_data toy_relevance [(''length_scale'', Num 0)] 2"
proof -
  have h1: "not_unnameable toy_data toy_relevance = Inr [0, 1, 2, 3]"
    by (simp add: toy_simps)
  have h2: "GaussianProcess toy_env (X_train_norm toy_data) [(''length_scale'', Num 0)] =
     Inr ([1, 2, - 1, - 2, 5], 1)"
    by (simp add: toy_simps)
  have h3: "make_kfold toy_env toy_relevance 2 = Inr (2, Some 0)"
    by (simp add: toy_simps)
  have h4: "kfold_split toy_env toy_data toy_relevance [0, 1, 2, 3] (2, Some 0) =
     Inr [([1, 3], [0, 2]), ([0, 2], [1, 3])]"
    by (simp add: toy_simps)
  have h5: "partitions [([1, 3], [0, 2]), ([0, 2], [1, 3])] (length [0, 1, 2, 3 :: nat])"
    by (auto simp: partitions_def)
  have h6: "gp_folds toy_env toy_data toy_relevance [0, 1, 2, 3] [([1, 3], [0, 2]), ([0, 2], [1, 3])]
       (([1, 2, - 1, - 2, 5], 1), replicate (length [0, 1, 2, 3 :: nat]) []) =
     Inr (([1, 2, - 1, - 2, 5], 1), [[1], [2], [- 1], [- 2]])"
    by (simp add: toy_simps)
  note c = pooled_scores_written_once [OF h1 h2 h3 h4 h5 h6, of "\<lambda>i. 7"]
  note c2 = c [THEN conjunct2, THEN conjunct1]
  note c4 = c [THEN conjunct2, THEN conjunct2, THEN conjunct2, THEN conjunct1]
  note c6 = c [THEN conjunct2, THEN conjunct2, THEN conjunct2, THEN conjunct2, THEN conjunct2,
    THEN conjunct1]
  note c8 = c [THEN conjunct2, THEN conjunct2, THEN conjunct2, THEN conjunct2, THEN conjunct2,
    THEN conjunct2, THEN conjunct2]
  show ?thesis by (intro conjI) (rule h1 h2 h3 h4 h5 h6 c2 c4 c6 c8)+
qed

section \<open>The few-shot mean\<close>

lemma fold_metric_spec:
  assumes nu: "not_unnameable ds relevance = Inr nu"
    and s: "np_take nu ind = Inr samples"
    and m: "fold_metric E ds relevance nu ind scores = Inr p"
  shows "spec_metric E ds relevance samples scores = Inr p"
proof (cases relevance)
  case None
  from np_take_map [OF s] have sm: "samples = map (\<lambda>p. nu ! p) ind"
    and rng: "\<forall>p \<in> set ind. p < length nu" by simp_all
  from nu None rng have "\<forall>p \<in> set ind. nu ! p = p"
    by (simp add: not_unnameable_None_nth)
  then have eq: "map (\<lambda>i. y_train ds ! i) samples = map (\<lambda>p. y_train ds ! p) ind"
    unfolding sm by simp
  from m None obtain y v where y: "np_take (y_train ds) ind = Inr y"
    and v: "mean_squared_error E y scores = Inr v" and p: "neg_sqrt v = Inr p"
    by (auto simp: fold_metric_def bind_eq_Inr)
  from np_take_map [OF y] eq have "y = map (\<lambda>i. y_train ds ! i) samples" by simp
  with v p None show ?thesis
    by (simp add: spec_metric_def neg_sqrt_def)
next
  case (Some rel)
  with m s obtain y where "np_take rel samples = Inr y"
    "average_precision_score E y scores = Inr p"
    by (auto simp: fold_metric_def bind_eq_Inr)
  with np_take_map [of rel samples y] Some show ?thesis
    by (simp add: spec_metric_def)
qed

lemma fewshot_fold_spec:
  assumes nu: "not_unnameable ds relevance = Inr nu"
    and run: "fewshot_fold E ds relevance nu fd (gp, acc) = Inr (gp', acc')"
  shows "\<exists>p. spec_fewshot_score E ds relevance nu gp fd = Inr (gp', p) \<and> acc' = acc @ [p]"
proof -
  obtain train_ind test_ind where fd: "fd = (train_ind, test_ind)" by (cases fd)
  from run obtain te targets tr scores p where
    te: "np_take nu test_ind = Inr te" and
    tg: "fit_targets ds relevance nu test_ind = Inr targets" and
    fit: "gp_fit E gp te targets = Inr gp'" and
    tr: "np_take nu train_ind = Inr tr" and
    pr: "gp_predict_stored E gp' tr = Inr scores" and
    met: "fold_metric E ds relevance nu train_ind scores = Inr p" and
    acc: "acc' = acc @ [p]"
    by (auto simp: fewshot_fold_def fd bind_eq_Inr)
  from np_take_map [OF tr] fd have trs: "tr = train_samples nu fd" by (simp add: train_samples_def)
  from np_take_map [OF te] fd have tes: "te = test_samples nu fd" by (simp add: test_samples_def)
  from fit_targets_spec [OF nu te tg] have "targets = spec_labels ds relevance te" .
  with fit pr trs tes have "spec_fit_predict E ds relevance gp (test_samples nu fd) (train_samples nu fd) =
             Inr (gp', scores)"
    by (simp add: spec_fit_predict_def)
  moreover from fold_metric_spec [OF nu tr met] trs
  have "spec_metric E ds relevance (train_samples nu fd) scores = Inr p" by simp
  ultimately have "spec_fewshot_score E ds relevance nu gp fd = Inr (gp', p)"
    by (simp add: spec_fewshot_score_def)
  with acc show ?thesis by blast
qed

lemma fewshot_folds_Inr:
  assumes nu: "not_unnameable ds relevance = Inr nu"
  shows "fewshot_folds E ds relevance nu fs (gp, acc) = Inr (gp', acc') \<Longrightarrow>
     \<exists>gps ps. gps ! 0 = gp \<and> length gps = Suc (length fs) \<and> length ps = length fs \<and>
       acc' = acc @ ps \<and>
       (\<forall>j < length fs.
          spec_fewshot_score E ds relevance nu (gps ! j) (fs ! j) = Inr (gps ! Suc j, ps ! j))"
proof (induction fs arbitrary: gp acc)
  case Nil
  then have "acc' = acc" by simp
  then show ?case by (intro exI [of _ "[gp]"] exI [of _ "[]"]) simp
next
  case (Cons fd fs)
  from Cons.prems obtain g1 a1 where
    step: "fewshot_fold E ds relevance nu fd (gp, acc) = Inr (g1, a1)" and
    rest: "fewshot_folds E ds relevance nu fs (g1, a1) = Inr (gp', acc')"
    by (auto split: sum.splits)
  from fewshot_fold_spec [OF nu step] obtain p where
    one: "spec_fewshot_score E ds relevance nu gp fd = Inr (g1, p)" and a1: "a1 = acc @ [p]"
    by blast
  from Cons.IH [OF rest [unfolded a1]] obtain gps ps where
    g0: "gps ! 0 = g1" and lg: "length gps = Suc (length fs)" and lp: "length ps = length fs"
    and pf: "acc' = (acc @ [p]) @ ps"
    and all: "\<forall>j < length fs.
       spec_fewshot_score E ds relevance nu (gps ! j) (fs ! j) = Inr (gps ! Suc j, ps ! j)"
    by blast
  have "\<forall>j < length (fd # fs).
          spec_fewshot_score E ds relevance nu ((gp # gps) ! j) ((fd # fs) ! j) =
            Inr ((gp # gps) ! Suc j, (p # ps) ! j)"
  proof (intro allI impI)
    fix j assume j: "j < length (fd # fs)"
    show "spec_fewshot_score E ds relevance nu ((gp # gps) ! j) ((fd # fs) ! j) =
            Inr ((gp # gps) ! Suc j, (p # ps) ! j)"
    proof (cases j)
      case 0
      with one g0 show ?thesis by simp
    next
      case (Suc j')
      with j all show ?thesis by simp
    qed
  qed
  with lg lp pf show ?case
    by (intro exI [of _ "gp # gps"] exI [of _ "p # ps"]) simp
qed

text \<open>
  Claim C5. The splitter is taken to give as many folds as asked for. Then the result
  of the few-shot evaluator is the sum of \<open>n_folds\<close> scores divided by \<open>n_folds\<close>,
  the score of fold \<open>j\<close> being the metric, on the samples of its train partition alone,
  of the predictions of the predictor fitted on the samples of its test partition with
  their labels; the predictor is passed on from fold to fold.
\<close>

theorem fewshot_mean_of_fold_scores:
  assumes run: "cross_validate_fewshot E ds relevance params n_folds = Inr r"
    and count: "\<forall>nu kf fs. not_unnameable ds relevance = Inr nu \<longrightarrow>
        make_kfold E relevance n_folds = Inr kf \<longrightarrow>
        kfold_split E ds relevance nu kf = Inr fs \<longrightarrow> int (length fs) = n_folds"
  shows "\<exists>nu kf fs gps ps.
           not_unnameable ds relevance = Inr nu \<and>
           make_kfold E relevance n_folds = Inr kf \<and>
           kfold_split E ds relevance nu kf = Inr fs \<and>
           GaussianProcess E (X_train_norm ds) params = Inr (gps ! 0) \<and>
           length gps = Suc (length fs) \<and> length ps = length fs \<and>
           int (length ps) = n_folds \<and>
           (\<forall>j < length fs.
              spec_fewshot_score E ds relevance nu (gps ! j) (fs ! j) =
                Inr (gps ! Suc j, ps ! j)) \<and>
           r = sum_list ps / real (length ps)"
proof -
  from run obtain nu gp kf fs gp' acc where
    nu: "not_unnameable ds relevance = Inr nu" and
    gp: "GaussianProcess E (X_train_norm ds) params = Inr gp" and
    kf: "make_kfold E relevance n_folds = Inr kf" and
    fs: "kfold_split E ds relevance nu kf = Inr fs" and
    folds: "fewshot_folds E ds relevance nu fs (gp, []) = Inr (gp', acc)" and
    mean: "np_mean acc = Inr r"
    by (auto simp: cross_validate_fewshot_def bind_eq_Inr)
  from fewshot_folds_Inr [OF nu folds] obtain gps ps where
    g0: "gps ! 0 = gp" and lg: "length gps = Suc (length fs)" and lp: "length ps = length fs"
    and pf: "acc = ps"
    and all: "\<forall>j < length fs.
       spec_fewshot_score E ds relevance nu (gps ! j) (fs ! j) = Inr (gps ! Suc j, ps ! j)"
    by auto
  from count nu kf fs lp have n: "int (length ps) = n_folds" by simp
  from mean pf have r: "r = sum_list ps / real (length ps)"
    by (auto simp: np_mean_def split: if_splits)
  from nu kf fs gp g0 lg lp n all r show ?thesis by blast
qed

theorem fewshot_mean_of_fold_scores_witness:
  "cross_validate_fewshot toy_env toy_data toy_relevance [(''length_scale'', Num 0)] 2 = Inr 1 \<and>
   (\<exists>nu kf fs gps ps.
           not_unnameable toy_data toy_relevance = Inr nu \<and>
           make_kfold toy_env toy_relevance 2 = Inr kf \<and>
           kfold_split toy_env toy_data toy_relevance nu kf = Inr fs \<and>
           GaussianProcess toy_env (X_train_norm toy_data) [(''length_scale'', Num 0)] = Inr (gps ! 0) \<and>
           length gps = Suc (length fs) \<and> length ps = length fs \<and>
           int (length ps) = 2 \<and>
           (\<forall>j < length fs.
              spec_fewshot_score toy_env toy_data toy_relevance nu (gps ! j) (fs ! j) =
                Inr (gps ! Suc j, ps ! j)) \<and>
           (1 :: real) = sum_list ps / real (length ps))"
proof -
  have h1: "cross_validate_fewshot toy_env toy_data toy_relevance [(''length_scale'', Num 0)] 2 = Inr 1"
    by (simp add: toy_simps)
  have h2: "\<forall>nu kf fs. not_unnameable toy_data toy_relevance = Inr nu \<longrightarrow>
        make_kfold toy_env toy_relevance 2 = Inr kf \<longrightarrow>
        kfold_split toy_env toy_data toy_relevance nu kf = Inr fs \<longrightarrow> int (length fs) = 2"
  proof (intro allI impI)
    fix nu kf fs
    assume "not_unnameable toy_data toy_relevance = Inr nu"
    moreover have "not_unnameable toy_data toy_relevance = Inr [0, 1, 2, 3]"
      by (simp add: toy_simps)
    ultimately have nu: "nu = [0, 1, 2, 3]" by simp
    assume "make_kfold toy_env toy_relevance 2 = Inr kf"
    then have kf: "kf = (2, Some 0)" by (auto simp: toy_simps)
    assume "kfold_split toy_env toy_data toy_relevance nu kf = Inr fs"
    moreover have "kfold_split toy_env toy_data toy_relevance [0, 1, 2, 3] (2, Some 0) =
        Inr [([1, 3], [0, 2]), ([0, 2], [1, 3])]"
      by (simp add: toy_simps)
    ultimately have "fs = [([1, 3], [0, 2]), ([0, 2], [1, 3])]"
      unfolding nu kf by simp
    then show "int (length fs) = 2" by simp
  qed
  from fewshot_mean_of_fold_scores [OF h1 h2] h1 show ?thesis by blast
qed

section \<open>Too few eligible samples\<close>

lemma isl_bind: "isl m \<Longrightarrow> isl (bind m f)"
  by (cases m) simp_all

lemma isl_bind_all: "(\<And>x. isl (f x)) \<Longrightarrow> isl (bind m f)"
  by (cases m) simp_all

lemma kfold_split_fails:
  assumes spl: "\<forall>X y. int (length X) < n_folds \<longrightarrow> isl (split E kf X y)"
    and few: "int (length nu) < n_folds"
  shows "isl (kfold_split E ds relevance nu kf)"
proof (cases "np_take (X_train_norm ds) nu")
  case (Inl e)
  then show ?thesis by (simp add: kfold_split_def)
next
  case (Inr X)
  from np_take_Inr [OF Inr] few have "int (length X) < n_folds" by simp
  with spl have "\<And>y. isl (split E kf X y)" by blast
  with Inr show ?thesis
    by (auto simp: kfold_split_def intro: isl_bind_all split: option.splits)
qed

lemma evaluators_fail:
  assumes ctor: "n_folds < 2 \<longrightarrow>
      isl (KFold E n_folds True (Some 0)) \<and> isl (StratifiedKFold E n_folds True (Some 0))"
    and spl: "\<forall>kf X y. make_kfold E relevance n_folds = Inr kf \<longrightarrow> int (length X) < n_folds \<longrightarrow>
                isl (split E kf X y)"
    and few: "\<forall>nu. not_unnameable ds relevance = Inr nu \<longrightarrow>
                nu = [] \<or> int (length nu) < n_folds \<or> n_folds < 2"
  shows "isl (cross_validate_gp E ds relevance params n_folds) \<and>
         isl (cross_validate_fewshot E ds relevance params n_folds)"
proof (cases "not_unnameable ds relevance")
  case (Inl e)
  then show ?thesis by (simp add: cross_validate_gp_def cross_validate_fewshot_def)
next
  case nu: (Inr nu)
  show ?thesis
  proof (cases "GaussianProcess E (X_train_norm ds) params")
    case (Inl e)
    with nu show ?thesis by (simp add: cross_validate_gp_def cross_validate_fewshot_def)
  next
    case gp: (Inr gp)
    show ?thesis
    proof (cases "make_kfold E relevance n_folds")
      case (Inl e)
      with nu gp show ?thesis by (simp add: cross_validate_gp_def cross_validate_fewshot_def)
    next
      case kf: (Inr kf)
      with ctor have k2: "\<not> n_folds < 2"
        by (auto simp: make_kfold_def split: option.splits)
      with few nu have "int (length nu) < n_folds" by auto
      with spl kf have "isl (kfold_split E ds relevance nu kf)"
        by (intro kfold_split_fails) auto
      with nu gp kf show ?thesis
        by (simp add: cross_validate_gp_def cross_validate_fewshot_def isl_bind)
    qed
  qed
qed

lemma sweep_fails:
  assumes "\<And>v. isl (sc v)" and "vals \<noteq> []"
  shows "isl (sweep sc vals d)"
proof (cases vals)
  case Nil
  with assms(2) show ?thesis by simp
next
  case (Cons v rest)
  from assms(1) [of v] obtain e where "sc v = Inl e" by (auto simp: isl_def)
  with Cons show ?thesis by simp
qed

lemma axis_best_fails:
  assumes "\<And>ps. isl (cv ps)"
  shows "isl (axis_best cv grid pd st)"
proof (cases "changing_param st < length grid")
  case False
  then show ?thesis by (simp add: axis_best_def)
next
  case True
  show ?thesis
  proof (cases "dict_get grid (map fst grid ! changing_param st)")
    case (Inl e)
    with True show ?thesis by (simp add: axis_best_def)
  next
    case (Inr vals)
    have sc: "\<And>v. isl (candidate_score cv (map fst grid) (changing_param st) (cur_params st) pd v)"
      using assms by (simp add: candidate_score_def isl_bind_all)
    show ?thesis
    proof (cases "vals = []")
      case True
      with \<open>changing_param st < length grid\<close> Inr show ?thesis
        by (simp add: axis_best_def dict_argmax_def)
    next
      case False
      from sweep_fails [OF sc False] \<open>changing_param st < length grid\<close> Inr show ?thesis
        by (simp add: axis_best_def isl_bind)
    qed
  qed
qed

lemma optimize_fails:
  assumes "\<And>ps. isl (evaluator E ds relevance n_folds fewshot ps)"
  shows "\<exists>e. optimize_gp_params E ds relevance grid init n_folds fewshot = Some (Inl e)"
proof (cases "init_params init (map fst grid)")
  case (Inl e)
  then show ?thesis by (simp add: optimize_gp_params_def)
next
  case (Inr cur)
  let ?cv = "evaluator E ds relevance n_folds fewshot"
  let ?pd = "pdist (X_train_norm ds)"
  from init_params_length [OF Inr] have len: "length cur = length grid" by simp
  show ?thesis
  proof (cases "grid = []")
    case True
    with len have "while_loop ?cv grid ?pd (init_state cur) = Some (Inr (init_state cur))"
      by (subst while_loop.simps) (simp add: init_state_def)
    with Inr show ?thesis
      by (simp add: optimize_gp_params_def finish_def init_state_def dict_argmax_def)
  next
    case False
    with len obtain c0 rest where "cur = c0 # rest" by (cases cur) auto
    then have ex: "list_ex (\<lambda>b. b) (changed (init_state cur))"
      by (simp add: init_state_def)
    from axis_best_fails [OF assms] have "isl (loop_body ?cv grid ?pd (init_state cur))"
      by (simp add: loop_body_def isl_bind)
    then obtain e where "loop_body ?cv grid ?pd (init_state cur) = Inl e"
      by (auto simp: isl_def)
    with ex have "while_loop ?cv grid ?pd (init_state cur) = Some (Inl e)"
      by (subst while_loop.simps) simp
    with Inr show ?thesis by (simp add: optimize_gp_params_def)
  qed
qed

text \<open>
  Claim C6. The checks are those of the splitter: its constructor refuses a fold count
  below 2 and its split refuses more folds than samples. With them, both evaluators
  raise when no sample is eligible, when the fold count exceeds the number of eligible
  samples, or when it is below 2, and the optimizer ends with that exception: it
  returns no score and calls nothing again.
\<close>

theorem too_few_samples_fail:
  assumes ctor: "n_folds < 2 \<longrightarrow>
      isl (KFold E n_folds True (Some 0)) \<and> isl (StratifiedKFold E n_folds True (Some 0))"
    and spl: "\<forall>kf X y. make_kfold E relevance n_folds = Inr kf \<longrightarrow> int (length X) < n_folds \<longrightarrow>
                isl (split E kf X y)"
    and few: "\<forall>nu. not_unnameable ds relevance = Inr nu \<longrightarrow>
                nu = [] \<or> int (length nu) < n_folds \<or> n_folds < 2"
  shows "isl (cross_validate_gp E ds relevance params n_folds) \<and>
         isl (cross_validate_fewshot E ds relevance params n_folds) \<and>
         (\<exists>e. optimize_gp_params E ds relevance grid init n_folds fewshot = Some (Inl e))"
proof -
  have "isl (evaluator E ds relevance n_folds fewshot ps)" for ps
    using evaluators_fail [OF assms, of ps] by (simp add: evaluator_def)
  from optimize_fails [OF this] evaluators_fail [OF assms, of params] show ?thesis by blast
qed

theorem too_few_samples_fail_witness:
  "not_unnameable toy_data toy_relevance = Inr [0, 1, 2, 3] \<and>
   isl (cross_validate_gp toy_env toy_data toy_relevance [(''length_scale'', Num 0)] 5) \<and>
   isl (cross_validate_fewshot toy_env toy_data toy_relevance [(''length_scale'', Num 0)] 5) \<and>
   (\<exists>e. optimize_gp_params toy_env toy_data toy_relevance toy_grid
      (map_of [(''length_scale'', 0), (''var'', 3)]) 5 False = Some (Inl e))"
proof -
  have h1: "(5 :: int) < 2 \<longrightarrow>
      isl (KFold toy_env 5 True (Some 0)) \<and> isl (StratifiedKFold toy_env 5 True (Some 0))"
    by simp
  have h2: "\<forall>kf X y. make_kfold toy_env toy_relevance 5 = Inr kf \<longrightarrow> int (length X) < 5 \<longrightarrow>
      isl (split toy_env kf X y)"
    by (auto simp: make_kfold_def toy_env_def toy_relevance_def toy_split_def)
  have h3: "\<forall>nu. not_unnameable toy_data toy_relevance = Inr nu \<longrightarrow>
      nu = [] \<or> int (length nu) < 5 \<or> (5 :: int) < 2"
  proof (intro allI impI)
    fix nu assume "not_unnameable toy_data toy_relevance = Inr nu"
    moreover have "not_unnameable toy_data toy_relevance = Inr [0, 1, 2, 3]"
      by (simp add: toy_simps)
    ultimately have "nu = [0, 1, 2, 3]" by simp
    then show "nu = [] \<or> int (length nu) < 5 \<or> (5 :: int) < 2" by simp
  qed
  note c = too_few_samples_fail [OF h1 h2 h3,
      of "[(''length_scale'', Num 0)]" toy_grid "(map_of [(''length_scale'', 0), (''var'', 3)])" False]
  have n: "not_unnameable toy_data toy_relevance = Inr [0, 1, 2, 3]"
    by (simp add: toy_simps)
  from c n show ?thesis by blast
qed

section \<open>The loop ends\<close>

lemma finite_reach_space: "finite (reach_space grid cur)"
proof -
  let ?A = "\<Union>i < length grid. insert (cur ! i) (set (cands grid i))"
  have "set c \<subseteq> ?A \<and> length c = length grid" if c: "c \<in> reach_space grid cur" for c
  proof
    from c have len: "length c = length grid"
      and mem: "\<forall>i < length grid. c ! i \<in> insert (cur ! i) (set (cands grid i))"
      by (simp_all add: reach_space_def)
    show "length c = length grid" by (rule len)
    show "set c \<subseteq> ?A"
    proof
      fix x assume "x \<in> set c"
      then obtain i where i: "i < length c" and x: "c ! i = x"
        unfolding in_set_conv_nth by blast
      from i len mem have "c ! i \<in> insert (cur ! i) (set (cands grid i))" by simp
      with i len x show "x \<in> ?A" by (intro UN_I [of i]) simp_all
    qed
  qed
  then have "reach_space grid cur \<subseteq> {c. set c \<subseteq> ?A \<and> length c = length grid}"
    by (intro subsetI CollectI)
  moreover have "finite {c. set c \<subseteq> ?A \<and> length c = length grid}"
    by (rule finite_lists_length_eq) simp
  ultimately show ?thesis by (rule finite_subset)
qed

lemma better_irrefl: "\<not> better cv grid pd c c"
  by (simp add: better_def)

lemma better_trans: "better cv grid pd a b \<Longrightarrow> better cv grid pd b c \<Longrightarrow> better cv grid pd a c"
  by (auto simp: better_def)

lemma ahead_less:
  assumes sp: "reach_space grid cur' = reach_space grid cur"
    and mem: "cur' \<in> reach_space grid cur"
    and b: "better cv grid pd cur' cur"
  shows "ahead cv grid pd cur' < ahead cv grid pd cur"
proof -
  let ?S' = "{c \<in> reach_space grid cur'. better cv grid pd c cur'}"
  let ?S = "{c \<in> reach_space grid cur. better cv grid pd c cur}"
  have sub: "?S' \<subseteq> ?S"
  proof
    fix c assume "c \<in> ?S'"
    then have "c \<in> reach_space grid cur" and "better cv grid pd c cur'"
      using sp by simp_all
    with better_trans [OF _ b] show "c \<in> ?S" by simp
  qed
  from mem b have "cur' \<in> ?S" by simp
  moreover have "cur' \<notin> ?S'" by (simp add: better_irrefl)
  ultimately have "?S' \<noteq> ?S" by blast
  with sub have "?S' \<subset> ?S" by blast
  moreover have "finite ?S" by (simp add: finite_reach_space)
  ultimately have "card ?S' < card ?S" by (rule psubset_card_mono [rotated])
  then show ?thesis by (simp only: ahead_def)
qed

lemma pending_shift:
  assumes "j < n" "cp < n" "j \<noteq> cp"
  shows "(j + n - (cp + 1) mod n) mod n + 1 = (j + n - cp) mod (n :: nat)"
proof (cases "cp + 1 = n")
  case True
  with assms have "(cp + 1) mod n = 0" by simp
  moreover from True assms have "j + n - cp = j + 1" by simp
  ultimately show ?thesis using assms True by simp
next
  case False
  with assms have m: "(cp + 1) mod n = cp + 1" by simp
  show ?thesis
  proof (cases "cp < j")
    case True
    with assms have "(j + n - (cp + 1)) mod n = j - (cp + 1)" "(j + n - cp) mod n = j - cp"
      by (simp_all add: mod_if)
    with True m show ?thesis by simp
  next
    case False
    with assms have "j < cp" by simp
    with assms have "(j + n - (cp + 1)) mod n = j + n - (cp + 1)" "(j + n - cp) mod n = j + n - cp"
      by (simp_all add: mod_if)
    with \<open>j < cp\<close> assms m show ?thesis by simp
  qed
qed

lemma pending_less:
  assumes wf: "wf_state grid st" and ex: "list_ex (\<lambda>b. b) (changed st)"
  shows "pending grid \<lparr> cur_params = cur', changed = (changed st)[changing_param st := False],
            changing_param = (changing_param st + 1) mod length grid, perf = pf',
            best_perf = bp' \<rparr> < pending grid st"
proof -
  let ?n = "length grid" and ?cp = "changing_param st"
  from wf have lc: "length (changed st) = ?n" and cp: "?cp < ?n" by (simp_all add: wf_state_def)
  let ?f = "\<lambda>j. if (changed st)[?cp := False] ! j
                 then (j + ?n - (?cp + 1) mod ?n) mod ?n + 1 else 0"
  let ?g = "\<lambda>j. if changed st ! j then (j + ?n - ?cp) mod ?n + 1 else 0"
  have le: "\<forall>j \<in> {..<?n}. ?f j \<le> ?g j"
  proof
    fix j assume "j \<in> {..<?n}"
    then have j: "j < ?n" by simp
    show "?f j \<le> ?g j"
    proof (cases "j = ?cp")
      case True
      with lc cp show ?thesis by simp
    next
      case False
      with pending_shift [OF j cp False] show ?thesis by (simp add: nth_list_update)
    qed
  qed
  from ex obtain j where j: "j < ?n" and cj: "changed st ! j"
    using lc by (auto simp: list_ex_iff in_set_conv_nth)
  have "?f j < ?g j"
  proof (cases "j = ?cp")
    case True
    with lc cp cj show ?thesis by simp
  next
    case False
    with pending_shift [OF j cp False] cj show ?thesis by (simp add: nth_list_update)
  qed
  moreover from j have "j \<in> {..<?n}" by simp
  ultimately have "\<exists>j \<in> {..<?n}. ?f j < ?g j" by (rule bexI)
  with le have "sum ?f {..<?n} < sum ?g {..<?n}"
    by (intro sum_strict_mono_ex1) simp_all
  then show ?thesis by (simp add: pending_def cong: if_cong)
qed

lemma dict_get_cands: "dict_get grid (map fst grid ! i) = Inr vals \<Longrightarrow> vals = cands grid i"
  by (simp add: dict_get_def cands_def split: option.splits)

lemma candidate_score_cfg:
  assumes "wf_state grid st"
  shows "candidate_score cv (map fst grid) (changing_param st) (cur_params st) pd val =
         cv (config_params (map fst grid) ((cur_params st)[changing_param st := val]) pd)"
proof -
  from assms have "changing_param st < length (cur_params st)"
    "length (map fst grid) \<le> length (cur_params st)"
    by (simp_all add: wf_state_def)
  from cv_params_config [OF this] show ?thesis by (simp add: candidate_score_def)
qed

lemma cfg_score_Inr: "cv (config_params (map fst grid) c pd) = Inr t \<Longrightarrow> cfg_score cv grid pd c = t"
  by (simp add: cfg_score_def)

lemma first_idx_both:
  "x \<in> set xs \<Longrightarrow> first_idx xs x < length xs \<and> xs ! first_idx xs x = x"
  by (induction xs) (auto simp: first_idx_def)

lemma first_idx_props:
  assumes "x \<in> set xs"
  shows "first_idx xs x < length xs" and "xs ! first_idx xs x = x"
  using first_idx_both [OF assms] by simp_all

lemma first_idx_le: "j < length xs \<Longrightarrow> xs ! j = x \<Longrightarrow> first_idx xs x \<le> j"
  by (induction xs arbitrary: j) (auto simp: first_idx_def nth_Cons split: nat.splits)

lemma cfg_rank_less:
  assumes cp: "cp < length grid" and len: "length cur = length grid"
    and lt: "first_idx (cands grid cp) v < first_idx (cands grid cp) (cur ! cp)"
  shows "cfg_rank grid (cur[cp := v]) < cfg_rank grid cur"
proof -
  let ?f = "\<lambda>i. first_idx (cands grid i) (cur[cp := v] ! i)"
  let ?g = "\<lambda>i. first_idx (cands grid i) (cur ! i)"
  have "\<forall>i \<in> {..<length grid}. ?f i \<le> ?g i"
  proof
    fix i assume "i \<in> {..<length grid}"
    with lt cp len show "?f i \<le> ?g i" by (cases "i = cp") simp_all
  qed
  moreover from lt cp len have "?f cp < ?g cp" by simp
  moreover from cp have "cp \<in> {..<length grid}" by simp
  ultimately have "sum ?f {..<length grid} < sum ?g {..<length grid}"
    by (intro sum_strict_mono_ex1) auto
  then show ?thesis by (simp add: cfg_rank_def)
qed

lemma step_decreases:
  assumes wf: "wf_state grid st" and ex: "list_ex (\<lambda>b. b) (changed st)"
    and body: "loop_body cv grid pd st = Inr (Next st')"
  shows "wf_state grid st' \<and>
     ((off_grid grid (cur_params st'), ahead cv grid pd (cur_params st'), pending grid st'),
      (off_grid grid (cur_params st), ahead cv grid pd (cur_params st), pending grid st))
       \<in> less_than <*lex*> less_than <*lex*> less_than"
proof -
  let ?n = "length grid" and ?cp = "changing_param st" and ?cur = "cur_params st"
  let ?names = "map fst grid"
  from wf have lcur: "length ?cur = ?n" and lch: "length (changed st) = ?n" and cp: "?cp < ?n"
    by (simp_all add: wf_state_def)
  from loop_body_cases [OF body] obtain v s where
    ab: "axis_best cv grid pd st = Inr (v, s)" and
    st': "st' = \<lparr> cur_params = ?cur[?cp := v],
                   changed = (changed st)[?cp := (v \<noteq> ?cur ! ?cp)],
                   changing_param = (?cp + 1) mod ?n,
                   perf = dict_set (perf st) (?cur[?cp := v]) s,
                   best_perf = Fin s \<rparr>"
    by (auto simp: ctl_state_def)
  from cp have "0 < ?n" by (cases grid) simp_all
  with st' lcur lch have wf': "wf_state grid st'" by (simp add: wf_state_def)
  from st' have cur': "cur_params st' = ?cur[?cp := v]" by simp
  let ?vals = "cands grid ?cp"
  let ?F = "\<lambda>val. ?cur[?cp := val]"
  from axis_best_max [OF ab] obtain vals j where
    dg: "dict_get grid (?names ! ?cp) = Inr vals" and j: "j < length vals" and vj: "vals ! j = v"
    and sv: "candidate_score cv ?names ?cp ?cur pd v = Inr s"
    and all: "\<forall>i < length vals. \<exists>t. candidate_score cv ?names ?cp ?cur pd (vals ! i) = Inr t \<and> t \<le> s"
    and before: "\<forall>i < j. \<exists>t. candidate_score cv ?names ?cp ?cur pd (vals ! i) = Inr t \<and> t < s"
    by blast
  from dict_get_cands [OF dg] have vals: "vals = ?vals" .
  from j vj vals have vmem: "v \<in> set ?vals" by auto
  have score_v: "cfg_score cv grid pd (?F v) = s"
    using sv by (simp add: candidate_score_cfg [OF wf] cfg_score_Inr)
  have score_all: "cfg_score cv grid pd (?F (?vals ! i)) \<le> s" if "i < length ?vals" for i
    using all that vals by (auto simp: candidate_score_cfg [OF wf] cfg_score_Inr)
  have score_before: "cfg_score cv grid pd (?F (?vals ! i)) < s" if "i < j" for i
    using before that vals by (auto simp: candidate_score_cfg [OF wf] cfg_score_Inr)
  let ?O = "\<lambda>c. {i. i < ?n \<and> c ! i \<notin> set (cands grid i)}"
  have fin: "finite (?O ?cur)" by simp
  have nth': "?F v ! i = (if i = ?cp then v else ?cur ! i)" if "i < ?n" for i
    using that lcur by (simp add: nth_list_update)
  have osub: "?O (?F v) \<subseteq> ?O ?cur"
    using vmem by (auto simp: nth' split: if_splits)
  show ?thesis
  proof (cases "?cur ! ?cp \<in> set ?vals")
    case False
    with cp have "?cp \<in> ?O ?cur" by simp
    moreover from vmem cp have "?cp \<notin> ?O (?F v)" by (simp add: nth')
    ultimately have "?O (?F v) \<subset> ?O ?cur" using osub by blast
    with fin have "card (?O (?F v)) < card (?O ?cur)" by (rule psubset_card_mono)
    then have "off_grid grid (cur_params st') < off_grid grid ?cur"
      by (simp add: off_grid_def cur')
    with wf' show ?thesis by simp
  next
    case True
    have "?O (?F v) = ?O ?cur"
    proof
      show "?O (?F v) \<subseteq> ?O ?cur" by (rule osub)
      show "?O ?cur \<subseteq> ?O (?F v)" using True by (auto simp: nth' split: if_splits)
    qed
    then have off: "off_grid grid (cur_params st') = off_grid grid ?cur"
      by (simp add: off_grid_def cur')
    show ?thesis
    proof (cases "v = ?cur ! ?cp")
      case same: True
      then have "?F v = ?cur" by simp
      with cur' have c: "cur_params st' = ?cur" by simp
      from same st' have "st' = \<lparr> cur_params = ?cur[?cp := v],
                   changed = (changed st)[?cp := False],
                   changing_param = (?cp + 1) mod ?n,
                   perf = dict_set (perf st) (?cur[?cp := v]) s,
                   best_perf = Fin s \<rparr>" by simp
      with pending_less [OF wf ex] have "pending grid st' < pending grid st" by simp
      with wf' c show ?thesis by simp
    next
      case diff: False
      let ?k = "first_idx ?vals (?cur ! ?cp)"
      from first_idx_props [OF True] have k: "?k < length ?vals" and vk: "?vals ! ?k = ?cur ! ?cp"
        by simp_all
      have "?F (?vals ! ?k) = ?cur" by (simp add: vk)
      with score_all [OF k] have le: "cfg_score cv grid pd ?cur \<le> s" by simp
      have b: "better cv grid pd (?F v) ?cur"
      proof (cases "cfg_score cv grid pd ?cur < s")
        case True
        with score_v show ?thesis by (simp add: better_def)
      next
        case False
        with le have eq: "cfg_score cv grid pd ?cur = s" by simp
        have "\<not> ?k < j"
        proof
          assume "?k < j"
          from score_before [OF this] \<open>?F (?vals ! ?k) = ?cur\<close> eq show False by simp
        qed
        moreover from vj vals vk diff have "j \<noteq> ?k" by auto
        ultimately have "j < ?k" by simp
        moreover from first_idx_le [of j ?vals v] j vj vals have "first_idx ?vals v \<le> j" by simp
        ultimately have "first_idx ?vals v < ?k" by simp
        from cfg_rank_less [OF cp lcur this] have "cfg_rank grid (?F v) < cfg_rank grid ?cur" .
        with eq score_v show ?thesis by (simp add: better_def)
      qed
      have sp: "reach_space grid (?F v) = reach_space grid ?cur"
      proof -
        have "insert (?F v ! i) (set (cands grid i)) = insert (?cur ! i) (set (cands grid i))"
          if "i < ?n" for i
          using that True vmem by (auto simp: nth' split: if_splits)
        then show ?thesis by (simp add: reach_space_def)
      qed
      have mem: "?F v \<in> reach_space grid ?cur"
        using lcur vmem by (auto simp: reach_space_def nth' split: if_splits)
      from ahead_less [OF sp mem b] have "ahead cv grid pd (cur_params st') < ahead cv grid pd ?cur"
        by (simp add: cur')
      with wf' off show ?thesis by simp
    qed
  qed
qed

lemma while_loop_returns:
  assumes "wf_state grid st"
  shows "\<exists>r. while_loop cv grid pd st = Some r"
proof -
  let ?m = "\<lambda>st. (off_grid grid (cur_params st), ahead cv grid pd (cur_params st), pending grid st)"
  have "wf (inv_image (less_than <*lex*> less_than <*lex*> less_than) ?m)"
    by (intro wf_inv_image wf_lex_prod wf_less_than)
  then show ?thesis using assms
  proof (induction st rule: wf_induct_rule)
    case (less st)
    show ?case
    proof (cases "list_ex (\<lambda>b. b) (changed st)")
      case False
      then show ?thesis by (subst while_loop.simps) simp
    next
      case True
      show ?thesis
      proof (cases "loop_body cv grid pd st")
        case (Inl e)
        with True show ?thesis by (subst while_loop.simps) simp
      next
        case (Inr c)
        show ?thesis
        proof (cases c)
          case (Break s')
          with True Inr show ?thesis by (subst while_loop.simps) simp
        next
          case (Next st')
          with Inr have body: "loop_body cv grid pd st = Inr (Next st')" by simp
          from step_decreases [OF less.prems True body]
          have "wf_state grid st'" and
            "(st', st) \<in> inv_image (less_than <*lex*> less_than <*lex*> less_than) ?m"
            by simp_all
          from less.IH [OF this(2) this(1)] obtain r where "while_loop cv grid pd st' = Some r" ..
          with True body show ?thesis by (subst while_loop.simps) simp
        qed
      qed
    qed
  qed
qed

text \<open>
  The optimizer always comes back, with an exception or with a configuration and its
  score: each pass of the loop brings an axis onto the grid, or moves to a better
  configuration, or clears a flag with the configuration unchanged.
\<close>

lemma optimize_gp_params_returns:
  "\<exists>r. optimize_gp_params E ds relevance grid init n_folds fewshot = Some r"
proof (cases "init_params init (map fst grid)")
  case (Inl e)
  then show ?thesis by (simp add: optimize_gp_params_def)
next
  case (Inr cur)
  let ?cv = "evaluator E ds relevance n_folds fewshot"
  let ?pd = "pdist (X_train_norm ds)"
  from init_params_length [OF Inr] have len: "length cur = length grid" by simp
  have "\<exists>r. while_loop ?cv grid ?pd (init_state cur) = Some r"
  proof (cases "grid = []")
    case True
    with len show ?thesis by (subst while_loop.simps) (simp add: init_state_def)
  next
    case False
    with len have "wf_state grid (init_state cur)"
      by (simp add: wf_state_def init_state_def)
    then show ?thesis by (rule while_loop_returns)
  qed
  then obtain r where "while_loop ?cv grid ?pd (init_state cur) = Some r" ..
  with Inr show ?thesis by (cases r) (simp_all add: optimize_gp_params_def)
qed

section \<open>Runs with the same inputs\<close>

lemma split_fields:
  "make_kfold (E\<lparr>split := sp'\<rparr>) relevance k = make_kfold E relevance k"
  "gp_fold (E\<lparr>split := sp'\<rparr>) ds relevance nu fd st = gp_fold E ds relevance nu fd st"
  "fewshot_fold (E\<lparr>split := sp'\<rparr>) ds relevance nu fd st2 = fewshot_fold E ds relevance nu fd st2"
  "pooled_score (E\<lparr>split := sp'\<rparr>) ds relevance nu sc = pooled_score E ds relevance nu sc"
  by (simp_all add: make_kfold_def gp_fold_def fewshot_fold_def fold_metric_def pooled_score_def
        cong: option.case_cong)

lemma split_gp_folds:
  "gp_folds (E\<lparr>split := sp'\<rparr>) ds relevance nu fs st = gp_folds E ds relevance nu fs st"
  by (induction fs arbitrary: st) (simp_all add: split_fields split: sum.splits)

lemma split_fewshot_folds:
  "fewshot_folds (E\<lparr>split := sp'\<rparr>) ds relevance nu fs st = fewshot_folds E ds relevance nu fs st"
  by (induction fs arbitrary: st) (simp_all add: split_fields split: sum.splits)

lemma seeded_kfold_split:
  assumes seeded: "\<forall>k sh s kf.
      StratifiedKFold E k sh (Some s) = Inr kf \<or> KFold E k sh (Some s) = Inr kf \<longrightarrow>
      sp' kf = split E kf"
    and kf: "make_kfold E relevance n_folds = Inr kf"
  shows "kfold_split (E\<lparr>split := sp'\<rparr>) ds relevance nu kf = kfold_split E ds relevance nu kf"
proof -
  from kf have "StratifiedKFold E n_folds True (Some 0) = Inr kf \<or>
      KFold E n_folds True (Some 0) = Inr kf"
    by (auto simp: make_kfold_def split: option.splits)
  with seeded have "sp' kf = split E kf" by blast
  then show ?thesis by (simp add: kfold_split_def cong: option.case_cong)
qed

lemma seeded_evaluator:
  assumes "\<forall>k sh s kf.
      StratifiedKFold E k sh (Some s) = Inr kf \<or> KFold E k sh (Some s) = Inr kf \<longrightarrow>
      sp' kf = split E kf"
  shows "cross_validate_gp (E\<lparr>split := sp'\<rparr>) ds relevance ps n_folds =
           cross_validate_gp E ds relevance ps n_folds"
    and "cross_validate_fewshot (E\<lparr>split := sp'\<rparr>) ds relevance ps n_folds =
           cross_validate_fewshot E ds relevance ps n_folds"
proof -
  have gp: "GaussianProcess (E\<lparr>split := sp'\<rparr>) = GaussianProcess E" by simp
  show "cross_validate_gp (E\<lparr>split := sp'\<rparr>) ds relevance ps n_folds =
           cross_validate_gp E ds relevance ps n_folds"
    unfolding cross_validate_gp_def split_fields split_gp_folds gp
    by (intro bind_cong2 refl) (erule seeded_kfold_split [OF assms])
  show "cross_validate_fewshot (E\<lparr>split := sp'\<rparr>) ds relevance ps n_folds =
           cross_validate_fewshot E ds relevance ps n_folds"
    unfolding cross_validate_fewshot_def split_fields split_fewshot_folds gp
    by (intro bind_cong2 refl) (erule seeded_kfold_split [OF assms])
qed

lemma uninit_fewshot_fold:
  "fewshot_fold (E\<lparr>uninit := u\<rparr>) ds relevance nu fd st = fewshot_fold E ds relevance nu fd st"
  by (simp add: fewshot_fold_def fold_metric_def cong: option.case_cong)

lemma uninit_fewshot_folds:
  "fewshot_folds (E\<lparr>uninit := u\<rparr>) ds relevance nu fs st = fewshot_folds E ds relevance nu fs st"
  by (induction fs arbitrary: st) (simp_all add: uninit_fewshot_fold split: sum.splits)

lemma cross_validate_fewshot_uninit:
  "cross_validate_fewshot (E\<lparr>uninit := u\<rparr>) ds relevance ps n_folds =
     cross_validate_fewshot E ds relevance ps n_folds"
  by (simp add: cross_validate_fewshot_def uninit_fields uninit_fewshot_folds)

text \<open>
  Claim C7. Two runs are two environments with the same predictor, metrics and
  constructors, in which a splitter built with a seed splits the same way; what may
  differ from run to run is the split of a splitter without a seed, which draws on the
  generator of the process, and the content of memory that has not been initialised.
  The test index lists of the splitter are taken to partition the positions of the
  eligible samples. The optimizer gives the same configuration and score in both runs:
  it builds its splitters with \<^verbatim>\<open>random_state = 0\<close> only, and it reads no cell of
  the prediction array before assigning to it. Scores are real numbers here: the
  rounding of floating-point operations is not part of the model.
\<close>

theorem seeded_runs_agree:
  assumes seeded: "\<forall>k sh s kf.
      StratifiedKFold E k sh (Some s) = Inr kf \<or> KFold E k sh (Some s) = Inr kf \<longrightarrow>
      sp' kf = split E kf"
    and part: "\<forall>nu kf fs. not_unnameable ds relevance = Inr nu \<longrightarrow>
        make_kfold E relevance n_folds = Inr kf \<longrightarrow>
        kfold_split E ds relevance nu kf = Inr fs \<longrightarrow> partitions fs (length nu)"
  shows "optimize_gp_params (E\<lparr>split := sp', uninit := u'\<rparr>) ds relevance grid init n_folds fewshot =
           optimize_gp_params E ds relevance grid init n_folds fewshot"
proof -
  let ?E1 = "E\<lparr>split := sp'\<rparr>"
  have part1: "\<forall>nu kf fs. not_unnameable ds relevance = Inr nu \<longrightarrow>
        make_kfold ?E1 relevance n_folds = Inr kf \<longrightarrow>
        kfold_split ?E1 ds relevance nu kf = Inr fs \<longrightarrow> partitions fs (length nu)"
  proof (intro allI impI)
    fix nu kf fs
    assume nu: "not_unnameable ds relevance = Inr nu"
      and "make_kfold ?E1 relevance n_folds = Inr kf"
      and fs: "kfold_split ?E1 ds relevance nu kf = Inr fs"
    then have kf: "make_kfold E relevance n_folds = Inr kf" by (simp add: split_fields)
    from fs seeded_kfold_split [OF seeded kf] have "kfold_split E ds relevance nu kf = Inr fs"
      by simp
    with part nu kf show "partitions fs (length nu)" by blast
  qed
  have "evaluator (?E1\<lparr>uninit := u'\<rparr>) ds relevance n_folds fewshot =
        evaluator E ds relevance n_folds fewshot"
  proof (rule ext)
    fix ps
    have "cross_validate_gp (?E1\<lparr>uninit := u'\<rparr>) ds relevance ps n_folds =
          cross_validate_gp ?E1 ds relevance ps n_folds"
      using part1 by (rule cross_validate_gp_uninit)
    moreover have "cross_validate_fewshot (?E1\<lparr>uninit := u'\<rparr>) ds relevance ps n_folds =
          cross_validate_fewshot ?E1 ds relevance ps n_folds"
      by (rule cross_validate_fewshot_uninit)
    ultimately show "evaluator (?E1\<lparr>uninit := u'\<rparr>) ds relevance n_folds fewshot ps =
        evaluator E ds relevance n_folds fewshot ps"
      by (simp only: evaluator_def seeded_evaluator [OF seeded])
  qed
  then show ?thesis by (simp only: optimize_gp_params_def)
qed

theorem seeded_runs_agree_witness:
  "optimize_gp_params (toy_env\<lparr>split := toy_split_again, uninit := (\<lambda>i. 7)\<rparr>) toy_data
      toy_relevance toy_grid (map_of [(''length_scale'', 0), (''var'', 3)]) 2 False =
   optimize_gp_params toy_env toy_data toy_relevance toy_grid
      (map_of [(''length_scale'', 0), (''var'', 3)]) 2 False"
proof -
  have h: "\<forall>k sh s kf.
      StratifiedKFold toy_env k sh (Some s) = Inr kf \<or> KFold toy_env k sh (Some s) = Inr kf \<longrightarrow>
      toy_split_again kf = split toy_env kf"
    by (auto simp: toy_env_def toy_split_again_def fun_eq_iff split: if_splits)
  have p: "\<forall>nu kf fs. not_unnameable toy_data toy_relevance = Inr nu \<longrightarrow>
        make_kfold toy_env toy_relevance 2 = Inr kf \<longrightarrow>
        kfold_split toy_env toy_data toy_relevance nu kf = Inr fs \<longrightarrow> partitions fs (length nu)"
  proof (intro allI impI)
    fix nu kf fs
    assume "not_unnameable toy_data toy_relevance = Inr nu"
    moreover have "not_unnameable toy_data toy_relevance = Inr [0, 1, 2, 3]"
      by (simp add: toy_simps)
    ultimately have nu: "nu = [0, 1, 2, 3]" by simp
    assume "make_kfold toy_env toy_relevance 2 = Inr kf"
    then have kf: "kf = (2, Some 0)" by (auto simp: toy_simps)
    assume "kfold_split toy_env toy_data toy_relevance nu kf = Inr fs"
    moreover have "kfold_split toy_env toy_data toy_relevance [0, 1, 2, 3] (2, Some 0) =
        Inr [([1, 3], [0, 2]), ([0, 2], [1, 3])]"
      by (simp add: toy_simps)
    ultimately have "fs = [([1, 3], [0, 2]), ([0, 2], [1, 3])]"
      unfolding nu kf by simp
    then show "partitions fs (length nu)" unfolding nu by (auto simp: partitions_def)
  qed
  from seeded_runs_agree [OF h p] show ?thesis .
qed


end
